theory Spec2Isabelle
  imports Complex_Main "HOL-Library.Multiset" "HOL-Library.Word"
begin

unbundle bit_operations_syntax

section \<open>Smart waste bin sensor node (sensor_firmware.ino)\<close>

text \<open>
  Values of the C++ types \<open>float\<close> and \<open>double\<close> are embedded as the real numbers they
  denote. The arithmetic of \<open>calculateFillLevel\<close> and the product \<open>voltage * 1000\<close> of
  \<open>broadcastData\<close> round every result to the nearest value of the operation's type, as
  the hardware does (\<open>r32\<close> for \<open>float\<close>, \<open>r64\<close> for \<open>double\<close>); infinities, NaN and
  the limits of the exponent are not part of the model. The conversion of an echo time
  to a reading and of an ADC sample to a voltage are kept as the exact expressions of
  the source. A C++ \<open>int\<close> is embedded as \<open>int\<close>.
\<close>

subsection \<open>Configuration constants\<close>

definition BIN_ID :: string where
  "BIN_ID = ''VAR_012''"

definition BIN_DEPTH_CM :: int where
  "BIN_DEPTH_CM = 80"

definition SENSOR_OFFSET_CM :: int where
  "SENSOR_OFFSET_CM = 5"

definition NUM_SAMPLES :: nat where
  "NUM_SAMPLES = 5"

definition SLEEP_INTERVAL :: int where
  "SLEEP_INTERVAL = 900000"

definition MAX_DISTANCE_CM :: int where
  "MAX_DISTANCE_CM = 200"

subsection \<open>Floating-point arithmetic\<close>

text \<open>
  \<open>binade x\<close> is the exponent \<open>e\<close> with \<open>2 ^ e \<le> \<bar>x\<bar> < 2 ^ (e + 1)\<close>, found by halving
  or doubling. \<open>round_float p\<close> rounds to the nearest number with a significand of \<open>p\<close>
  bits, a tie going to the even significand: \<open>p = 24\<close> is IEEE 754 binary32 (\<open>float\<close>)
  and \<open>p = 53\<close> binary64 (\<open>double\<close>), both without a bound on the exponent.
\<close>

function expo_up :: "real \<Rightarrow> int" where
  "expo_up x = (if x < 2 then 0 else expo_up (x / 2) + 1)"
  by pat_completeness auto
termination
proof (relation "measure (\<lambda>x. nat \<lfloor>x\<rfloor>)")
  show "wf (measure (\<lambda>x. nat \<lfloor>x\<rfloor>))" by simp
next
  fix x :: real assume "\<not> x < 2"
  then have "x / 2 \<le> x - 1" by simp
  then have "\<lfloor>x / 2\<rfloor> \<le> \<lfloor>x - 1\<rfloor>" by (rule floor_mono)
  moreover from \<open>\<not> x < 2\<close> have "1 \<le> \<lfloor>x - 1\<rfloor>" by simp
  ultimately show "(x / 2, x) \<in> measure (\<lambda>x. nat \<lfloor>x\<rfloor>)" by simp
qed

declare expo_up.simps [simp del]

function expo_down :: "real \<Rightarrow> int" where
  "expo_down x = (if x \<le> 0 \<or> 1 \<le> x then 0 else expo_down (2 * x) - 1)"
  by pat_completeness auto
termination
proof (relation "measure (\<lambda>x. nat \<lfloor>1 / x\<rfloor>)")
  show "wf (measure (\<lambda>x. nat \<lfloor>1 / x\<rfloor>))" by simp
next
  fix x :: real assume a: "\<not> (x \<le> 0 \<or> 1 \<le> x)"
  then have x: "0 < x" "x < 1" by simp_all
  define y where "y = 1 / x"
  from x have y: "1 < y" by (simp add: y_def)
  have "\<lfloor>y / 2\<rfloor> < \<lfloor>y\<rfloor>"
  proof (cases "y < 2")
    case True
    then have "\<lfloor>y / 2\<rfloor> = 0" using y by (simp add: floor_eq_iff)
    moreover from y have "1 \<le> \<lfloor>y\<rfloor>" by simp
    ultimately show ?thesis by simp
  next
    case False
    then have "y / 2 \<le> y - 1" by simp
    then have "\<lfloor>y / 2\<rfloor> \<le> \<lfloor>y - 1\<rfloor>" by (rule floor_mono)
    then show ?thesis by simp
  qed
  moreover have "1 / (2 * x) = y / 2" by (simp add: y_def)
  moreover from y have "0 < \<lfloor>y\<rfloor>" by simp
  ultimately show "(2 * x, x) \<in> measure (\<lambda>x. nat \<lfloor>1 / x\<rfloor>)"
    by (simp add: y_def mult.commute)
qed

declare expo_down.simps [simp del]

definition binade :: "real \<Rightarrow> int" where
  "binade x = (if \<bar>x\<bar> < 1 then expo_down \<bar>x\<bar> else expo_up \<bar>x\<bar>)"

definition round_half_even :: "real \<Rightarrow> int" where
  "round_half_even y =
     (let f = \<lfloor>y\<rfloor>; r = y - real_of_int f in
      if r < 1 / 2 then f
      else if 1 / 2 < r then f + 1
      else if even f then f else f + 1)"

definition round_float :: "nat \<Rightarrow> real \<Rightarrow> real" where
  "round_float p x =
     (if x = 0 then 0
      else (let ulp = 2 powi (binade x - int p + 1) in
            real_of_int (round_half_even (x / ulp)) * ulp))"

definition r32 :: "real \<Rightarrow> real" where
  "r32 = round_float 24"

definition r64 :: "real \<Rightarrow> real" where
  "r64 = round_float 53"

text \<open>A C++ cast from a floating-point value to an integer type discards the fraction.\<close>

definition float_to_int :: "real \<Rightarrow> int" where
  "float_to_int x = (if 0 \<le> x then \<lfloor>x\<rfloor> else \<lceil>x\<rceil>)"

subsection \<open>calculateFillLevel\<close>

text \<open>
  Line 145: the subtraction and the division are \<open>float\<close> operations, the product with
  the literal \<open>100.0\<close> is a \<open>double\<close> operation, and its result is stored in a \<open>float\<close>.
\<close>

definition fillPercentage :: "real \<Rightarrow> real" where
  "fillPercentage emptySpace =
     r32 (r64 (r32 (r32 (real_of_int BIN_DEPTH_CM - emptySpace) / real_of_int BIN_DEPTH_CM) * 100.0))"

text \<open>The two statements \<open>if (fillLevel < 0) fillLevel = 0; if (fillLevel > 100) fillLevel = 100;\<close>\<close>

definition clampLow :: "int \<Rightarrow> int" where
  "clampLow fillLevel = (if fillLevel < 0 then 0 else fillLevel)"

definition clampHigh :: "int \<Rightarrow> int" where
  "clampHigh fillLevel = (if fillLevel > 100 then 100 else fillLevel)"

definition calculateFillLevel :: "real \<Rightarrow> int" where
  "calculateFillLevel distance =
     (let adjustedDistance = r32 (distance - real_of_int SENSOR_OFFSET_CM) in
      if adjustedDistance \<le> 0 then 100
      else if adjustedDistance \<ge> real_of_int BIN_DEPTH_CM then 0
      else clampHigh (clampLow (float_to_int (fillPercentage adjustedDistance))))"

subsection \<open>measureDistance\<close>

text \<open>
  \<open>pulseIn\<close> is the sensor: the model takes the echo durations as a function from the
  sample index to the value the i-th call returns (microseconds, 0 for a timeout).
  The body of the sampling loop converts one duration into one reading.
\<close>

definition echoToReading :: "int \<Rightarrow> real" where
  "echoToReading duration =
     (if duration = 0 then real_of_int MAX_DISTANCE_CM
      else real_of_int duration * 0.034 / 2)"

function takeReadings :: "(nat \<Rightarrow> int) \<Rightarrow> nat \<Rightarrow> real list \<Rightarrow> real list" where
  "takeReadings pulseIn i readings =
     (if i < NUM_SAMPLES
      then takeReadings pulseIn (i + 1) (readings[i := echoToReading (pulseIn i)])
      else readings)"
  by pat_completeness auto
termination
  by (relation "measure (\<lambda>(pulseIn, i, readings). NUM_SAMPLES - i)") auto

declare takeReadings.simps [simp del]

text \<open>The nested loops that sort the array in place by exchanging out-of-order pairs.\<close>

function sortInner :: "nat \<Rightarrow> nat \<Rightarrow> real list \<Rightarrow> real list" where
  "sortInner i j readings =
     (if j < NUM_SAMPLES
      then sortInner i (j + 1)
             (if readings ! i > readings ! j
              then (let temp = readings ! i in readings[i := readings ! j, j := temp])
              else readings)
      else readings)"
  by pat_completeness auto
termination
  by (relation "measure (\<lambda>(i, j, readings). NUM_SAMPLES - j)") auto

declare sortInner.simps [simp del]

function sortOuter :: "nat \<Rightarrow> real list \<Rightarrow> real list" where
  "sortOuter i readings =
     (if i < NUM_SAMPLES - 1
      then sortOuter (i + 1) (sortInner i (i + 1) readings)
      else readings)"
  by pat_completeness auto
termination
  by (relation "measure (\<lambda>(i, readings). NUM_SAMPLES - 1 - i)") auto

declare sortOuter.simps [simp del]

text \<open>
  The array \<open>readings\<close> is declared without an initialiser; the model starts it with
  zeros, and every cell is overwritten by the sampling loop before it is read.
\<close>

definition rawReadings :: "(nat \<Rightarrow> int) \<Rightarrow> real list" where
  "rawReadings pulseIn = takeReadings pulseIn 0 (replicate NUM_SAMPLES 0)"

definition sortedReadings :: "(nat \<Rightarrow> int) \<Rightarrow> real list" where
  "sortedReadings pulseIn = sortOuter 0 (rawReadings pulseIn)"

definition measureDistance :: "(nat \<Rightarrow> int) \<Rightarrow> real" where
  "measureDistance pulseIn = sortedReadings pulseIn ! (NUM_SAMPLES div 2)"

text \<open>
  The median in the specification's words, to compare \<open>measureDistance\<close> with: sort the
  readings and take the exact middle element.
\<close>

definition spec_median :: "real list \<Rightarrow> real" where
  "spec_median xs = sort xs ! (length xs div 2)"

subsection \<open>readBatteryVoltage\<close>

text \<open>\<open>rawValue\<close> is the result of \<open>analogRead\<close>.\<close>

definition readBatteryVoltage :: "int \<Rightarrow> real" where
  "readBatteryVoltage rawValue = (real_of_int rawValue / 4095.0) * 3.3 * 2.0"

subsection \<open>broadcastData: the payload\<close>

type_synonym byte = "8 word"

text \<open>
  The cast to \<open>uint16_t\<close> discards the fraction. C++ leaves the result undefined when the
  truncated value does not fit the target type; the code continues with whatever value
  the conversion left, which the model takes as the parameter \<open>indeterminate\<close>. The
  parameter is not consulted for a value that fits.
\<close>

definition float_to_uint16 :: "16 word \<Rightarrow> real \<Rightarrow> 16 word" where
  "float_to_uint16 indeterminate x =
     (let t = float_to_int x in if 0 \<le> t \<and> t < 65536 then word_of_int t else indeterminate)"

text \<open>Line 205: the product is a \<open>float\<close> operation.\<close>

definition voltageMillivolts :: "16 word \<Rightarrow> real \<Rightarrow> 16 word" where
  "voltageMillivolts indeterminate voltage = float_to_uint16 indeterminate (r32 (voltage * 1000))"

text \<open>The loop \<open>for (int i = 0; i < 6 && i < binId.length(); i++)\<close>.\<close>

function appendBinId :: "string \<Rightarrow> nat \<Rightarrow> byte list \<Rightarrow> byte list" where
  "appendBinId binId i manufacturerData =
     (if i < 6 \<and> i < length binId
      then appendBinId binId (i + 1) (manufacturerData @ [of_char (binId ! i)])
      else manufacturerData)"
  by pat_completeness auto
termination
  by (relation "measure (\<lambda>(binId, i, manufacturerData). 6 - i)") auto

declare appendBinId.simps [simp del]

text \<open>
  The bytes appended to \<open>manufacturerData\<close>, for an identifier string \<open>binId\<close>, and the
  value \<open>millis\<close> returned by \<open>millis()\<close> (an unsigned 32-bit count of milliseconds).
\<close>

definition encodePayload :: "16 word \<Rightarrow> string \<Rightarrow> int \<Rightarrow> real \<Rightarrow> 32 word \<Rightarrow> byte list" where
  "encodePayload indeterminate binId fillLevel voltage millis =
     (let voltageMillivolts = voltageMillivolts indeterminate voltage;
          timestamp = millis div 1000
      in appendBinId binId 0 []
         @ [word_of_int fillLevel]
         @ [ucast (voltageMillivolts AND 0xFF)]
         @ [ucast (drop_bit 8 voltageMillivolts AND 0xFF)]
         @ [ucast (timestamp AND 0xFF)]
         @ [ucast (drop_bit 8 timestamp AND 0xFF)]
         @ [ucast (drop_bit 16 timestamp AND 0xFF)]
         @ [ucast (drop_bit 24 timestamp AND 0xFF)])"

text \<open>
  The inverse byte layout in the specification's words, to compare the encoder with (the
  firmware has no decoder): byte 6 is the fill level, bytes 7-8 the millivolts and bytes
  9-12 the uptime in seconds, both little-endian.
\<close>

record telemetry =
  fill :: nat
  millivolts :: nat
  uptime :: nat

definition spec_decodePayload :: "byte list \<Rightarrow> telemetry option" where
  "spec_decodePayload p =
     (if length p = 13
      then Some \<lparr>fill = unat (p ! 6),
                 millivolts = unat (p ! 7) + 256 * unat (p ! 8),
                 uptime = unat (p ! 9) + 256 * unat (p ! 10)
                          + 65536 * unat (p ! 11) + 16777216 * unat (p ! 12)\<rparr>
      else None)"

subsection \<open>broadcastData, enterDeepSleep and loop: the radio and the sleep controller\<close>

text \<open>
  The node's state is the advertising handle and the log of what the firmware did to
  the radio, the clock and the sleep controller, in order. Serial output is left out,
  and so are the trigger pulses and the waits of the sampling phase, which end before
  \<open>broadcastData\<close> is called.
\<close>

datatype event =
    SetAdvertisementData "byte list" string
  | AdvertisingStart
  | AdvertisingStop
  | Delay nat
  | TimerWakeup int
  | DeepSleepStart

record node =
  advertising :: bool
  advertisementData :: "byte list"
  events :: "event list"

definition setAdvertisementData :: "byte list \<Rightarrow> string \<Rightarrow> node \<Rightarrow> node" where
  "setAdvertisementData d n s =
     s\<lparr>advertisementData := d, events := events s @ [SetAdvertisementData d n]\<rparr>"

definition advertisingStart :: "node \<Rightarrow> node" where
  "advertisingStart s = s\<lparr>advertising := True, events := events s @ [AdvertisingStart]\<rparr>"

definition advertisingStop :: "node \<Rightarrow> node" where
  "advertisingStop s = s\<lparr>advertising := False, events := events s @ [AdvertisingStop]\<rparr>"

definition delay :: "nat \<Rightarrow> node \<Rightarrow> node" where
  "delay ms s = s\<lparr>events := events s @ [Delay ms]\<rparr>"

definition broadcastData :: "16 word \<Rightarrow> int \<Rightarrow> real \<Rightarrow> 32 word \<Rightarrow> node \<Rightarrow> node" where
  "broadcastData indeterminate fillLevel voltage millis s =
     (let manufacturerData = encodePayload indeterminate BIN_ID fillLevel voltage millis in
      advertisingStop (delay 5000 (advertisingStart
        (setAdvertisementData manufacturerData BIN_ID s))))"

definition enterDeepSleep :: "node \<Rightarrow> node" where
  "enterDeepSleep s =
     s\<lparr>events := events s @ [TimerWakeup (SLEEP_INTERVAL * 1000), DeepSleepStart]\<rparr>"

text \<open>
  One pass of \<open>loop\<close>; \<open>esp_deep_sleep_start\<close> does not return, so the pass ends there.
  The inputs are the echo durations, the ADC sample and the value of \<open>millis()\<close>.
\<close>

definition loop :: "16 word \<Rightarrow> (nat \<Rightarrow> int) \<Rightarrow> int \<Rightarrow> 32 word \<Rightarrow> node \<Rightarrow> node" where
  "loop indeterminate pulseIn analogRead millis s =
     (let distance = measureDistance pulseIn;
          fillLevel = calculateFillLevel distance;
          batteryVoltage = readBatteryVoltage analogRead;
          s' = broadcastData indeterminate fillLevel batteryVoltage millis s
      in enterDeepSleep (delay 100 s'))"

text \<open>
  Replaying a log from a given radio state: \<open>sleepsRadioOff\<close> is whether every entry
  into deep sleep finds the radio stopped, and \<open>advertisedFor\<close> the time waited while
  the radio was advertising.
\<close>

fun sleepsRadioOff :: "bool \<Rightarrow> event list \<Rightarrow> bool" where
  "sleepsRadioOff on [] = True"
| "sleepsRadioOff on (AdvertisingStart # es) = sleepsRadioOff True es"
| "sleepsRadioOff on (AdvertisingStop # es) = sleepsRadioOff False es"
| "sleepsRadioOff on (DeepSleepStart # es) = (\<not> on \<and> sleepsRadioOff on es)"
| "sleepsRadioOff on (e # es) = sleepsRadioOff on es"

fun advertisedFor :: "bool \<Rightarrow> event list \<Rightarrow> nat" where
  "advertisedFor on [] = 0"
| "advertisedFor on (AdvertisingStart # es) = advertisedFor True es"
| "advertisedFor on (AdvertisingStop # es) = advertisedFor False es"
| "advertisedFor on (Delay ms # es) = (if on then ms else 0) + advertisedFor on es"
| "advertisedFor on (e # es) = advertisedFor on es"

section \<open>Properties of the rounding\<close>

lemma two_powi_pos: "0 < (2::real) powi k"
  by (simp add: power_int_def)

lemma two_powi_Suc: "(2::real) powi (k + 1) = 2 * 2 powi k"
  by (simp add: power_int_add)

lemma two_powi_mono: "j \<le> k \<Longrightarrow> (2::real) powi j \<le> 2 powi k"
  by (rule power_int_increasing) simp_all

lemma two_powi_less_imp: "(2::real) powi j < 2 powi k \<Longrightarrow> j < k"
  using two_powi_mono [of k j] by (cases "j < k") auto

lemma expo_up_bounds:
  "1 \<le> x \<Longrightarrow> 2 powi expo_up x \<le> x \<and> x < 2 powi (expo_up x + 1)"
proof (induction x rule: expo_up.induct)
  case (1 x)
  show ?case
  proof (cases "x < 2")
    case True
    then have "expo_up x = 0" by (subst expo_up.simps) simp
    with True "1.prems" show ?thesis by simp
  next
    case False
    then have eq: "expo_up x = expo_up (x / 2) + 1" by (subst expo_up.simps) simp
    from False have "1 \<le> x / 2" by simp
    with "1.IH" [OF False] have "2 powi expo_up (x / 2) \<le> x / 2 \<and> x / 2 < 2 powi (expo_up (x / 2) + 1)"
      by simp
    moreover have "(2::real) powi (expo_up (x / 2) + 1) = 2 * 2 powi expo_up (x / 2)"
      by (rule two_powi_Suc)
    moreover have "(2::real) powi (expo_up (x / 2) + 1 + 1) = 2 * 2 powi (expo_up (x / 2) + 1)"
      by (rule two_powi_Suc)
    ultimately show ?thesis unfolding eq by linarith
  qed
qed

lemma expo_down_bounds:
  "0 < x \<Longrightarrow> x < 1 \<Longrightarrow> 2 powi expo_down x \<le> x \<and> x < 2 powi (expo_down x + 1)"
proof (induction x rule: expo_down.induct)
  case (1 x)
  from "1.prems" have c: "\<not> (x \<le> 0 \<or> 1 \<le> x)" by simp
  then have eq: "expo_down x = expo_down (2 * x) - 1" by (subst expo_down.simps) simp
  show ?case
  proof (cases "1 \<le> 2 * x")
    case True
    then have "expo_down (2 * x) = 0" by (subst expo_down.simps) simp
    with eq have "expo_down x = - 1" by simp
    with True "1.prems" show ?thesis by simp
  next
    case False
    with "1.IH" [OF c] "1.prems" have "2 powi expo_down (2 * x) \<le> 2 * x \<and> 2 * x < 2 powi (expo_down (2 * x) + 1)"
      by simp
    moreover have "2 powi expo_down (2 * x) = 2 * (2::real) powi (expo_down (2 * x) - 1)"
      using two_powi_Suc [of "expo_down (2 * x) - 1"] by simp
    moreover have "(2::real) powi (expo_down (2 * x) + 1) = 2 * 2 powi expo_down (2 * x)"
      by (rule two_powi_Suc)
    ultimately show ?thesis unfolding eq by simp
  qed
qed

lemma binade_bounds:
  assumes "x \<noteq> 0"
  shows "2 powi binade x \<le> \<bar>x\<bar>" and "\<bar>x\<bar> < 2 powi (binade x + 1)"
proof -
  have "2 powi binade x \<le> \<bar>x\<bar> \<and> \<bar>x\<bar> < 2 powi (binade x + 1)"
  proof (cases "\<bar>x\<bar> < 1")
    case True
    with assms expo_down_bounds [of "\<bar>x\<bar>"] show ?thesis by (simp add: binade_def)
  next
    case False
    with expo_up_bounds [of "\<bar>x\<bar>"] show ?thesis by (simp add: binade_def)
  qed
  then show "2 powi binade x \<le> \<bar>x\<bar>" and "\<bar>x\<bar> < 2 powi (binade x + 1)" by simp_all
qed

lemma binade_eqI:
  assumes "2 powi e \<le> \<bar>x\<bar>" and "\<bar>x\<bar> < 2 powi (e + 1)"
  shows "binade x = e"
proof -
  from assms(1) two_powi_pos [of e] have "0 < \<bar>x\<bar>" by linarith
  then have nz: "x \<noteq> 0" by simp
  note b = binade_bounds [OF nz]
  from assms(1) b(2) have "(2::real) powi e < 2 powi (binade x + 1)" by linarith
  then have "e < binade x + 1" by (rule two_powi_less_imp)
  moreover from b(1) assms(2) have "(2::real) powi binade x < 2 powi (e + 1)" by linarith
  then have "binade x < e + 1" by (rule two_powi_less_imp)
  ultimately show ?thesis by simp
qed

lemma binade_mono:
  assumes "x \<noteq> 0" and "\<bar>x\<bar> \<le> \<bar>y\<bar>"
  shows "binade x \<le> binade y"
proof -
  from assms have ny: "y \<noteq> 0" by auto
  from binade_bounds(1) [OF assms(1)] assms(2) binade_bounds(2) [OF ny]
  have "(2::real) powi binade x < 2 powi (binade y + 1)" by linarith
  then have "binade x < binade y + 1" by (rule two_powi_less_imp)
  then show ?thesis by simp
qed

lemma binade_minus: "binade (- x) = binade x"
  by (simp add: binade_def)

lemma round_half_even_cases:
  "round_half_even y = \<lfloor>y\<rfloor> \<and> y - real_of_int \<lfloor>y\<rfloor> \<le> 1 / 2 \<or>
   round_half_even y = \<lfloor>y\<rfloor> + 1 \<and> 1 / 2 \<le> y - real_of_int \<lfloor>y\<rfloor>"
  by (simp add: round_half_even_def Let_def)

lemma round_half_even_error: "\<bar>real_of_int (round_half_even y) - y\<bar> \<le> 1 / 2"
proof -
  have "real_of_int \<lfloor>y\<rfloor> \<le> y" "y < real_of_int \<lfloor>y\<rfloor> + 1" by linarith+
  with round_half_even_cases [of y] show ?thesis by auto
qed

lemma round_half_even_of_int [simp]: "round_half_even (real_of_int n) = n"
  by (simp add: round_half_even_def)

lemma round_half_even_eqI:
  assumes "\<bar>y - real_of_int m\<bar> < 1 / 2"
  shows "round_half_even y = m"
proof -
  from round_half_even_error [of y] assms
  have "\<bar>real_of_int (round_half_even y) - real_of_int m\<bar> < 1" by linarith
  then have "\<bar>real_of_int (round_half_even y - m)\<bar> < 1" by simp
  then have "\<bar>round_half_even y - m\<bar> < 1" by linarith
  then show ?thesis by simp
qed

lemma round_half_even_mono:
  assumes "y \<le> z"
  shows "round_half_even y \<le> round_half_even z"
proof (cases "\<lfloor>y\<rfloor> = \<lfloor>z\<rfloor>")
  case True
  with assms have "y - real_of_int \<lfloor>y\<rfloor> \<le> z - real_of_int \<lfloor>z\<rfloor>" by simp
  with True show ?thesis by (simp add: round_half_even_def Let_def)
next
  case False
  with assms floor_mono [of y z] have "\<lfloor>y\<rfloor> + 1 \<le> \<lfloor>z\<rfloor>" by simp
  moreover from round_half_even_cases [of y] have "round_half_even y \<le> \<lfloor>y\<rfloor> + 1" by auto
  moreover from round_half_even_cases [of z] have "\<lfloor>z\<rfloor> \<le> round_half_even z" by auto
  ultimately show ?thesis by linarith
qed

lemma round_half_even_minus: "round_half_even (- y) = - round_half_even y"
proof (cases "y = real_of_int \<lfloor>y\<rfloor>")
  case True
  then obtain n where "y = real_of_int n" ..
  then have "- y = real_of_int (- n)" by simp
  with \<open>y = real_of_int n\<close> show ?thesis by (simp only: round_half_even_of_int)
next
  case False
  then have fl: "\<lfloor>- y\<rfloor> = - \<lfloor>y\<rfloor> - 1"
    by (metis ceiling_altdef ceiling_def add_diff_cancel_right' minus_diff_eq uminus_add_conv_diff)
  let ?f = "\<lfloor>y\<rfloor>" and ?r = "y - real_of_int \<lfloor>y\<rfloor>"
  have r': "- y - real_of_int \<lfloor>- y\<rfloor> = 1 - ?r" by (simp add: fl)
  have ev: "even (- ?f - 1) \<longleftrightarrow> odd ?f" by simp
  show ?thesis
    unfolding round_half_even_def Let_def r' fl ev
    by (auto simp: field_simps)
qed

lemma round_float_zero [simp]: "round_float p 0 = 0"
  by (simp add: round_float_def)

lemma round_float_minus: "round_float p (- x) = - round_float p x"
  by (simp add: round_float_def binade_minus round_half_even_minus Let_def)

lemma round_float_eqI:
  assumes "2 powi e \<le> \<bar>x\<bar>" and "\<bar>x\<bar> < 2 powi (e + 1)"
    and "\<bar>x / 2 powi (e - int p + 1) - real_of_int m\<bar> < 1 / 2"
  shows "round_float p x = real_of_int m * 2 powi (e - int p + 1)"
proof -
  from assms(1) two_powi_pos [of e] have "0 < \<bar>x\<bar>" by linarith
  then have nz: "x \<noteq> 0" by simp
  have b: "binade x = e" using assms(1,2) by (rule binade_eqI)
  have "round_half_even (x / 2 powi (e - int p + 1)) = m"
    using assms(3) by (rule round_half_even_eqI)
  with nz b show ?thesis by (simp add: round_float_def Let_def)
qed

lemma round_float_error:
  assumes "x \<noteq> 0"
  shows "\<bar>round_float p x - x\<bar> \<le> 2 powi (binade x - int p)"
proof -
  let ?u = "(2::real) powi (binade x - int p + 1)"
  have u: "0 < ?u" by (rule two_powi_pos)
  have half: "?u / 2 = 2 powi (binade x - int p)"
    using two_powi_Suc [of "binade x - int p"] by simp
  have "round_float p x - x = (real_of_int (round_half_even (x / ?u)) - x / ?u) * ?u"
    using assms u by (simp add: round_float_def Let_def field_simps)
  then have "\<bar>round_float p x - x\<bar> = \<bar>real_of_int (round_half_even (x / ?u)) - x / ?u\<bar> * ?u"
    using u by (simp add: abs_mult)
  also have "\<dots> \<le> 1 / 2 * ?u"
    using round_half_even_error [of "x / ?u"] u by (intro mult_right_mono) simp_all
  finally show ?thesis using half by simp
qed

lemma round_float_rel_error:
  "\<bar>round_float p x - x\<bar> \<le> \<bar>x\<bar> * 2 powi (- int p)"
proof (cases "x = 0")
  case True
  then show ?thesis by simp
next
  case False
  have "(2::real) powi (binade x - int p) = 2 powi binade x * 2 powi (- int p)"
    by (simp add: power_int_diff power_int_minus field_simps)
  also have "\<dots> \<le> \<bar>x\<bar> * 2 powi (- int p)"
    using binade_bounds(1) [OF False] two_powi_pos [of "- int p"]
    by (intro mult_right_mono) simp_all
  finally show ?thesis using round_float_error [OF False, of p] by linarith
qed

lemma round_float_exact:
  assumes "x = real_of_int m * 2 powi k" and "\<bar>m\<bar> < 2 ^ p"
  shows "round_float p x = x"
proof (cases "x = 0")
  case True
  then show ?thesis by simp
next
  case False
  define j where "j = binade x - int p + 1"
  have pk: "0 < (2::real) powi k" and pj: "0 < (2::real) powi j" by (rule two_powi_pos)+
  have "2 powi binade x \<le> \<bar>x\<bar>" by (rule binade_bounds(1) [OF False])
  also have "\<bar>x\<bar> = real_of_int \<bar>m\<bar> * 2 powi k"
    using pk by (simp add: assms(1) abs_mult)
  also have "\<dots> < 2 ^ p * 2 powi k"
  proof -
    from assms(2) have "real_of_int \<bar>m\<bar> < real_of_int (2 ^ p)" by (simp only: of_int_less_iff)
    then have "real_of_int \<bar>m\<bar> < 2 ^ p" by simp
    with pk show ?thesis by (intro mult_strict_right_mono)
  qed
  also have "\<dots> = 2 powi (int p + k)"
    by (simp add: power_int_add)
  finally have "binade x < int p + k" by (rule two_powi_less_imp)
  then have jk: "j \<le> k" by (simp add: j_def)
  define n where "n = nat (k - j)"
  have "(2::real) powi k = 2 powi (j + int n)" using jk by (simp add: n_def)
  also have "\<dots> = 2 powi j * 2 ^ n" by (simp add: power_int_add)
  finally have pkj: "(2::real) powi k = 2 powi j * 2 ^ n" .
  have "x / 2 powi j = real_of_int m * 2 ^ n"
    unfolding assms(1) pkj using pj by simp
  then have q: "x / 2 powi j = real_of_int (m * 2 ^ n)" by simp
  then have "round_half_even (x / 2 powi j) = m * 2 ^ n"
    by (simp only: round_half_even_of_int)
  then have "round_float p x = real_of_int (m * 2 ^ n) * 2 powi j"
    using False by (simp add: round_float_def Let_def j_def)
  also have "\<dots> = x / 2 powi j * 2 powi j"
    using q by simp
  also have "\<dots> = x" using pj by simp
  finally show ?thesis .
qed

lemma round_float_of_int:
  assumes "\<bar>m\<bar> < 2 ^ p"
  shows "round_float p (real_of_int m) = real_of_int m"
  using round_float_exact [of "real_of_int m" m 0 p] assms by simp

lemma round_float_pos_bounds:
  assumes "0 < p" and "0 < x"
  shows "2 powi binade x \<le> round_float p x" and "round_float p x \<le> 2 powi (binade x + 1)"
proof -
  let ?e = "binade x"
  let ?u = "(2::real) powi (?e - int p + 1)"
  from assms(2) have nz: "x \<noteq> 0" by simp
  have u: "0 < ?u" by (rule two_powi_pos)
  have rf: "round_float p x = real_of_int (round_half_even (x / ?u)) * ?u"
    using nz by (simp add: round_float_def Let_def)
  obtain q where q: "p = Suc q" using assms(1) by (cases p) auto
  have lo: "(2::real) powi ?e = real_of_int (2 ^ q) * ?u"
    by (simp add: q power_int_diff power_int_add field_simps)
  have hi: "(2::real) powi (?e + 1) = real_of_int (2 ^ p) * ?u"
    by (simp add: q power_int_diff power_int_add field_simps)
  from binade_bounds [OF nz] assms(2) have b: "2 powi ?e \<le> x" "x < 2 powi (?e + 1)" by simp_all
  from b(1) u have "real_of_int (2 ^ q) \<le> x / ?u" unfolding lo by (simp add: field_simps)
  then have "round_half_even (real_of_int (2 ^ q)) \<le> round_half_even (x / ?u)"
    by (rule round_half_even_mono)
  then have "real_of_int (2 ^ q) \<le> real_of_int (round_half_even (x / ?u))"
    by (simp only: round_half_even_of_int of_int_le_iff)
  with u show "2 powi ?e \<le> round_float p x" unfolding rf lo by (intro mult_right_mono) simp_all
  from b(2) u have "x / ?u \<le> real_of_int (2 ^ p)" unfolding hi by (simp add: field_simps)
  then have "round_half_even (x / ?u) \<le> round_half_even (real_of_int (2 ^ p))"
    by (rule round_half_even_mono)
  then have "real_of_int (round_half_even (x / ?u)) \<le> real_of_int (2 ^ p)"
    by (simp only: round_half_even_of_int of_int_le_iff)
  with u show "round_float p x \<le> 2 powi (?e + 1)" unfolding rf hi by (intro mult_right_mono) simp_all
qed

lemma round_float_pos:
  assumes "0 < p" and "0 < x"
  shows "0 < round_float p x"
  using round_float_pos_bounds(1) [OF assms] two_powi_pos [of "binade x"] by linarith

lemma round_float_mono_pos:
  assumes "0 < p" and "0 < x" and "x \<le> y"
  shows "round_float p x \<le> round_float p y"
proof -
  from assms have y: "0 < y" by simp
  from assms(2) have nx: "x \<noteq> 0" by simp
  from y have ny: "y \<noteq> 0" by simp
  have le: "binade x \<le> binade y" using binade_mono [OF nx, of y] assms(2,3) by simp
  show ?thesis
  proof (cases "binade x = binade y")
    case True
    let ?u = "(2::real) powi (binade y - int p + 1)"
    have u: "0 < ?u" by (rule two_powi_pos)
    from assms(3) u have "x / ?u \<le> y / ?u" by (simp add: divide_right_mono)
    then have "round_half_even (x / ?u) \<le> round_half_even (y / ?u)" by (rule round_half_even_mono)
    then have "real_of_int (round_half_even (x / ?u)) * ?u \<le> real_of_int (round_half_even (y / ?u)) * ?u"
      using u by (intro mult_right_mono) simp_all
    with nx ny True show ?thesis by (simp add: round_float_def Let_def)
  next
    case False
    with le have "binade x + 1 \<le> binade y" by simp
    then have "(2::real) powi (binade x + 1) \<le> 2 powi binade y" by (rule two_powi_mono)
    with round_float_pos_bounds(2) [OF assms(1,2)] round_float_pos_bounds(1) [OF assms(1) y]
    show ?thesis by linarith
  qed
qed

lemma round_float_nonneg: "0 \<le> x \<Longrightarrow> 0 \<le> round_float p x"
proof -
  assume x: "0 \<le> x"
  have "0 \<le> x / 2 powi (binade x - int p + 1)"
    using x two_powi_pos [of "binade x - int p + 1"] by simp
  then have "round_half_even 0 \<le> round_half_even (x / 2 powi (binade x - int p + 1))"
    by (rule round_half_even_mono)
  moreover have "round_half_even 0 = 0" using round_half_even_of_int [of 0] by simp
  ultimately have "0 \<le> real_of_int (round_half_even (x / 2 powi (binade x - int p + 1)))" by simp
  then show ?thesis
    using two_powi_pos [of "binade x - int p + 1"] by (simp add: round_float_def Let_def)
qed

lemma round_float_mono:
  assumes "0 < p" and "x \<le> y"
  shows "round_float p x \<le> round_float p y"
proof -
  consider (pos) "0 < x" | (neg) "y < 0" | (mid) "x \<le> 0" "0 \<le> y" by linarith
  then show ?thesis
  proof cases
    case pos
    then show ?thesis using assms by (intro round_float_mono_pos)
  next
    case neg
    with assms(2) have "0 < - y" "- y \<le> - x" by simp_all
    from round_float_mono_pos [OF assms(1) this] show ?thesis by (simp add: round_float_minus)
  next
    case mid
    from mid(1) have "0 \<le> round_float p (- x)" by (intro round_float_nonneg) simp
    then have "round_float p x \<le> 0" by (simp add: round_float_minus)
    moreover from mid(2) have "0 \<le> round_float p y" by (rule round_float_nonneg)
    ultimately show ?thesis by linarith
  qed
qed

lemma r32_mono: "x \<le> y \<Longrightarrow> r32 x \<le> r32 y"
  unfolding r32_def by (rule round_float_mono) simp_all

lemma r64_mono: "x \<le> y \<Longrightarrow> r64 x \<le> r64 y"
  unfolding r64_def by (rule round_float_mono) simp_all

lemma r32_zero [simp]: "r32 0 = 0"
  by (simp add: r32_def)

lemma r64_zero [simp]: "r64 0 = 0"
  by (simp add: r64_def)

lemma r32_of_int: "\<bar>m\<bar> < 16777216 \<Longrightarrow> r32 (real_of_int m) = real_of_int m"
  unfolding r32_def by (rule round_float_of_int) simp

lemma r64_of_int: "\<bar>m\<bar> < 16777216 \<Longrightarrow> r64 (real_of_int m) = real_of_int m"
  unfolding r64_def by (rule round_float_of_int) simp

lemma r32_pos: "0 < x \<Longrightarrow> 0 < r32 x"
  unfolding r32_def by (rule round_float_pos) simp_all

lemma r32_error: "\<bar>r32 x - x\<bar> \<le> \<bar>x\<bar> / 16777216"
  using round_float_rel_error [of 24 x] by (simp add: r32_def power_int_minus field_simps)

lemma r64_error: "\<bar>r64 x - x\<bar> \<le> \<bar>x\<bar> / 9007199254740992"
  using round_float_rel_error [of 53 x] by (simp add: r64_def power_int_minus field_simps)

lemma r32_80 [simp]: "r32 80 = 80"
  using r32_of_int [of 80] by simp

lemma r32_100 [simp]: "r32 100 = 100"
  using r32_of_int [of 100] by simp

lemma r32_1 [simp]: "r32 1 = 1"
  using r32_of_int [of 1] by simp

lemma r64_100 [simp]: "r64 100 = 100"
  using r64_of_int [of 100] by simp

lemma r32_range:
  assumes "real_of_int lo \<le> x" and "x \<le> real_of_int hi" and "\<bar>lo\<bar> < 16777216" and "\<bar>hi\<bar> < 16777216"
  shows "real_of_int lo \<le> r32 x" and "r32 x \<le> real_of_int hi"
  using r32_mono [OF assms(1)] r32_mono [OF assms(2)] r32_of_int [OF assms(3)] r32_of_int [OF assms(4)]
  by simp_all

section \<open>Properties of calculateFillLevel\<close>

lemma float_to_int_mono: "x \<le> y \<Longrightarrow> float_to_int x \<le> float_to_int y"
proof -
  assume xy: "x \<le> y"
  show ?thesis
  proof (cases "0 \<le> x")
    case True
    with xy show ?thesis by (simp add: float_to_int_def floor_mono)
  next
    case False
    note neg = this
    show ?thesis
    proof (cases "0 \<le> y")
      case True
      from neg have "\<lceil>x\<rceil> \<le> 0" by (simp add: ceiling_le_iff)
      moreover from True have "0 \<le> \<lfloor>y\<rfloor>" by simp
      moreover from neg True have "float_to_int x = \<lceil>x\<rceil>" "float_to_int y = \<lfloor>y\<rfloor>"
        by (simp_all add: float_to_int_def)
      ultimately show ?thesis by linarith
    next
      case False
      with neg xy show ?thesis by (simp add: float_to_int_def ceiling_mono)
    qed
  qed
qed

text \<open>The intermediate values of line 145, for an empty space between 0 and the depth.\<close>

lemma fillPercentage_steps:
  assumes "0 \<le> a" and "a \<le> 80"
  defines "b \<equiv> r32 (80 - a)"
  defines "q \<equiv> r32 (b / 80)"
  defines "m \<equiv> r64 (q * 100)"
  shows "fillPercentage a = r32 m"
    and "0 \<le> b" and "b \<le> 80" and "0 \<le> q" and "q \<le> 1" and "0 \<le> m" and "m \<le> 100"
    and "0 \<le> r32 m" and "r32 m \<le> 100"
proof -
  show "fillPercentage a = r32 m"
    by (simp add: fillPercentage_def BIN_DEPTH_CM_def b_def q_def m_def)
  from assms(1,2) have "0 \<le> 80 - a" "80 - a \<le> 80" by simp_all
  from r32_mono [OF this(1)] r32_mono [OF this(2)] show b: "0 \<le> b" "b \<le> 80"
    by (simp_all add: b_def)
  then have "0 \<le> b / 80" "b / 80 \<le> 1" by simp_all
  from r32_mono [OF this(1)] r32_mono [OF this(2)] show q: "0 \<le> q" "q \<le> 1"
    by (simp_all add: q_def)
  then have "0 \<le> q * 100" "q * 100 \<le> 100" by simp_all
  from r64_mono [OF this(1)] r64_mono [OF this(2)] show m: "0 \<le> m" "m \<le> 100"
    by (simp_all add: m_def)
  from r32_mono [OF m(1)] r32_mono [OF m(2)] show "0 \<le> r32 m" "r32 m \<le> 100"
    by simp_all
qed

lemma fillPercentage_bounds:
  assumes "0 \<le> a" and "a \<le> 80"
  shows "0 \<le> fillPercentage a" and "fillPercentage a \<le> 100"
  using fillPercentage_steps(1,8,9) [OF assms] by simp_all

lemma percentage_cast_range:
  assumes "0 \<le> a" and "a \<le> 80"
  shows "0 \<le> float_to_int (fillPercentage a)" and "float_to_int (fillPercentage a) \<le> 100"
proof -
  note p = fillPercentage_bounds [OF assms]
  from p(1) show "0 \<le> float_to_int (fillPercentage a)" by (simp add: float_to_int_def)
  from p(2) have "\<lfloor>fillPercentage a\<rfloor> \<le> 100" by (simp add: floor_le_iff)
  with p(1) show "float_to_int (fillPercentage a) \<le> 100" by (simp add: float_to_int_def)
qed

lemma fillPercentage_antimono: "a \<le> b \<Longrightarrow> fillPercentage b \<le> fillPercentage a"
proof -
  assume "a \<le> b"
  then have "80 - b \<le> 80 - a" by simp
  then have "r32 (80 - b) \<le> r32 (80 - a)" by (rule r32_mono)
  then have "r32 (80 - b) / 80 \<le> r32 (80 - a) / 80" by simp
  then have "r32 (r32 (80 - b) / 80) \<le> r32 (r32 (80 - a) / 80)" by (rule r32_mono)
  then have "r32 (r32 (80 - b) / 80) * 100 \<le> r32 (r32 (80 - a) / 80) * 100" by simp
  then have "r64 (r32 (r32 (80 - b) / 80) * 100) \<le> r64 (r32 (r32 (80 - a) / 80) * 100)"
    by (rule r64_mono)
  then show ?thesis unfolding fillPercentage_def BIN_DEPTH_CM_def by (simp add: r32_mono)
qed

lemma fillPercentage_80: "fillPercentage 80 = 0"
  by (simp add: fillPercentage_def BIN_DEPTH_CM_def)

lemma calculateFillLevel_range: "0 \<le> calculateFillLevel d \<and> calculateFillLevel d \<le> 100"
  by (simp add: calculateFillLevel_def Let_def clampLow_def clampHigh_def)

lemma clamp_mono: "x \<le> y \<Longrightarrow> clampHigh (clampLow x) \<le> clampHigh (clampLow y)"
  by (simp add: clampLow_def clampHigh_def)

lemma adjusted_bounds:
  assumes "0 < d - real_of_int SENSOR_OFFSET_CM"
    and "d - real_of_int SENSOR_OFFSET_CM < real_of_int BIN_DEPTH_CM"
  shows "0 < r32 (d - real_of_int SENSOR_OFFSET_CM)"
    and "r32 (d - real_of_int SENSOR_OFFSET_CM) \<le> 80"
proof -
  show "0 < r32 (d - real_of_int SENSOR_OFFSET_CM)" using assms(1) by (rule r32_pos)
  from assms(2) have "d - real_of_int SENSOR_OFFSET_CM \<le> 80" by (simp add: BIN_DEPTH_CM_def)
  from r32_mono [OF this] show "r32 (d - real_of_int SENSOR_OFFSET_CM) \<le> 80" by simp
qed

lemma calculateFillLevel_interpolated:
  assumes "0 < d - real_of_int SENSOR_OFFSET_CM"
    and "d - real_of_int SENSOR_OFFSET_CM < real_of_int BIN_DEPTH_CM"
  shows "calculateFillLevel d =
    float_to_int (fillPercentage (r32 (d - real_of_int SENSOR_OFFSET_CM)))"
proof -
  let ?a = "r32 (d - real_of_int SENSOR_OFFSET_CM)"
  note a = adjusted_bounds [OF assms]
  from a have "0 \<le> ?a" by simp
  note c = percentage_cast_range [OF this a(2)]
  show ?thesis
  proof (cases "?a = 80")
    case True
    then show ?thesis
      by (simp add: calculateFillLevel_def Let_def BIN_DEPTH_CM_def fillPercentage_80 float_to_int_def)
  next
    case False
    with a have "\<not> ?a \<le> 0" "\<not> ?a \<ge> real_of_int BIN_DEPTH_CM"
      by (simp_all add: BIN_DEPTH_CM_def)
    with c show ?thesis
      by (simp add: calculateFillLevel_def Let_def clampLow_def clampHigh_def)
  qed
qed

lemma fillPercentage_close:
  assumes "0 < x" and "x < 80"
  shows "\<bar>fillPercentage (r32 x) - (80 - x) / 80 * 100\<bar> < 1 / 1000"
proof -
  define a where "a = r32 x"
  define b where "b = r32 (80 - a)"
  define q where "q = r32 (b / 80)"
  define m where "m = r64 (q * 100)"
  from assms have "0 \<le> x" "x \<le> 80" by simp_all
  from r32_mono [OF this(1)] r32_mono [OF this(2)] have a: "0 \<le> a" "a \<le> 80"
    by (simp_all add: a_def)
  note s = fillPercentage_steps [OF a, folded b_def, folded q_def, folded m_def]
  have ea: "\<bar>a - x\<bar> \<le> 80 / 16777216"
  proof -
    have "\<bar>a - x\<bar> \<le> \<bar>x\<bar> / 16777216" unfolding a_def by (rule r32_error)
    also have "\<dots> \<le> 80 / 16777216" using assms by simp
    finally show ?thesis .
  qed
  have eb: "\<bar>b - (80 - a)\<bar> \<le> 80 / 16777216"
  proof -
    have "\<bar>b - (80 - a)\<bar> \<le> \<bar>80 - a\<bar> / 16777216" unfolding b_def by (rule r32_error)
    also have "\<dots> \<le> 80 / 16777216" using a by simp
    finally show ?thesis .
  qed
  have eq: "\<bar>q - b / 80\<bar> \<le> 1 / 16777216"
  proof -
    have "\<bar>q - b / 80\<bar> \<le> \<bar>b / 80\<bar> / 16777216" unfolding q_def by (rule r32_error)
    also have "\<dots> \<le> 1 / 16777216" using s(2,3) by simp
    finally show ?thesis .
  qed
  have em: "\<bar>m - q * 100\<bar> \<le> 100 / 9007199254740992"
  proof -
    have "\<bar>m - q * 100\<bar> \<le> \<bar>q * 100\<bar> / 9007199254740992" unfolding m_def by (rule r64_error)
    also have "\<dots> \<le> 100 / 9007199254740992" using s(4,5) by simp
    finally show ?thesis .
  qed
  have ep: "\<bar>r32 m - m\<bar> \<le> 100 / 16777216"
  proof -
    have "\<bar>r32 m - m\<bar> \<le> \<bar>m\<bar> / 16777216" by (rule r32_error)
    also have "\<dots> \<le> 100 / 16777216" using s(6,7) by simp
    finally show ?thesis .
  qed
  have e1: "\<bar>100 * q - 5 * b / 4\<bar> \<le> 100 / 16777216"
    using eq by argo
  have e2: "\<bar>5 * b / 4 - 5 * (80 - a) / 4\<bar> \<le> 100 / 16777216"
    using eb by argo
  have e3: "\<bar>5 * (80 - a) / 4 - 5 * (80 - x) / 4\<bar> \<le> 100 / 16777216"
    using ea by argo
  have e4: "\<bar>m - 100 * q\<bar> \<le> 100 / 9007199254740992"
    using em by (simp add: mult.commute)
  have "\<bar>r32 m - 5 * (80 - x) / 4\<bar> \<le> 400 / 16777216 + 100 / 9007199254740992"
    using ep e4 e1 e2 e3 by argo
  also have "\<dots> < (1 / 1000 :: real)" by simp
  finally have "\<bar>r32 m - (80 - x) / 80 * 100\<bar> < 1 / 1000" by argo
  then show ?thesis using s(1) by (simp add: a_def)
qed

lemma floor_close:
  fixes u v :: real
  assumes "\<bar>u - v\<bar> < 1"
  shows "\<bar>\<lfloor>u\<rfloor> - \<lfloor>v\<rfloor>\<bar> \<le> 1"
proof -
  have "real_of_int \<lfloor>u\<rfloor> \<le> u" "u < real_of_int \<lfloor>u\<rfloor> + 1"
    "real_of_int \<lfloor>v\<rfloor> \<le> v" "v < real_of_int \<lfloor>v\<rfloor> + 1" by linarith+
  with assms have "\<bar>real_of_int \<lfloor>u\<rfloor> - real_of_int \<lfloor>v\<rfloor>\<bar> < 2" by linarith
  then have "\<bar>real_of_int (\<lfloor>u\<rfloor> - \<lfloor>v\<rfloor>)\<bar> < 2" by simp
  then have "\<bar>\<lfloor>u\<rfloor> - \<lfloor>v\<rfloor>\<bar> < 2" by linarith
  then show ?thesis by simp
qed

text \<open>
  Claim C1 as stated fails where the rounding of the firmware's arithmetic crosses an
  integer: just above the sensor offset, at d = 5 + 2^-21, the difference 80 - 2^-21
  rounds to 80 and the code returns 100, while the exact value 99.99999940395355
  truncates to 99.
\<close>

theorem calculateFillLevel_exact_counterexample:
  "calculateFillLevel (5 + 1 / 2 ^ 21) = 100 \<and>
   float_to_int ((80 - ((5 + 1 / 2 ^ 21) - 5)) / 80 * 100) = 99"
  by code_simp

text \<open>
  Claim C1, amended. calculateFillLevel returns 100 when the distance minus the sensor
  offset is at most 0, returns 0 when it is at least the bin depth, and otherwise returns
  (depth - (d - offset)) / depth * 100 evaluated in the firmware's floating-point
  arithmetic and truncated to an integer, which differs from the truncation of the exact
  value by at most 1; for every distance, negative or arbitrarily large ones included,
  the result lies in [0, 100]; and at d = offset + depth / 2 the result is 50.
\<close>

theorem calculateFillLevel_cases:
  "(d - real_of_int SENSOR_OFFSET_CM \<le> 0 \<longrightarrow> calculateFillLevel d = 100) \<and>
   (d - real_of_int SENSOR_OFFSET_CM \<ge> real_of_int BIN_DEPTH_CM \<longrightarrow> calculateFillLevel d = 0) \<and>
   (0 < d - real_of_int SENSOR_OFFSET_CM \<and> d - real_of_int SENSOR_OFFSET_CM < real_of_int BIN_DEPTH_CM \<longrightarrow>
      calculateFillLevel d =
        float_to_int (r32 (r64 (r32 (r32 (real_of_int BIN_DEPTH_CM - r32 (d - real_of_int SENSOR_OFFSET_CM))
                                  / real_of_int BIN_DEPTH_CM) * 100))) \<and>
      \<bar>calculateFillLevel d -
         float_to_int ((real_of_int BIN_DEPTH_CM - (d - real_of_int SENSOR_OFFSET_CM)) / real_of_int BIN_DEPTH_CM * 100)\<bar> \<le> 1) \<and>
   0 \<le> calculateFillLevel d \<and> calculateFillLevel d \<le> 100 \<and>
   calculateFillLevel (real_of_int SENSOR_OFFSET_CM + real_of_int BIN_DEPTH_CM / 2) = 50"
proof (intro conjI impI)
  let ?x = "d - real_of_int SENSOR_OFFSET_CM"
  show "calculateFillLevel d = 100" if "?x \<le> 0"
  proof -
    from r32_mono [OF that] have "r32 ?x \<le> 0" by simp
    then show ?thesis by (simp add: calculateFillLevel_def)
  qed
  show "calculateFillLevel d = 0" if "?x \<ge> real_of_int BIN_DEPTH_CM"
  proof -
    from that have "80 \<le> ?x" by (simp add: BIN_DEPTH_CM_def)
    from r32_mono [OF this] have "80 \<le> r32 ?x" by simp
    then show ?thesis by (simp add: calculateFillLevel_def Let_def BIN_DEPTH_CM_def)
  qed
  show "calculateFillLevel d =
        float_to_int (r32 (r64 (r32 (r32 (real_of_int BIN_DEPTH_CM - r32 ?x) / real_of_int BIN_DEPTH_CM) * 100)))"
    if "0 < ?x \<and> ?x < real_of_int BIN_DEPTH_CM"
    using that calculateFillLevel_interpolated [of d] by (simp add: fillPercentage_def)
  show "\<bar>calculateFillLevel d -
         float_to_int ((real_of_int BIN_DEPTH_CM - ?x) / real_of_int BIN_DEPTH_CM * 100)\<bar> \<le> 1"
    if h: "0 < ?x \<and> ?x < real_of_int BIN_DEPTH_CM"
  proof -
    from h have x: "0 < ?x" "?x < 80" by (simp_all add: BIN_DEPTH_CM_def)
    from h have c: "calculateFillLevel d = float_to_int (fillPercentage (r32 ?x))"
      using calculateFillLevel_interpolated [of d] by simp
    from x have "0 \<le> ?x" "?x \<le> 80" by simp_all
    from r32_mono [OF this(1)] r32_mono [OF this(2)] have "0 \<le> r32 ?x" "r32 ?x \<le> 80" by simp_all
    from fillPercentage_bounds(1) [OF this] have p: "0 \<le> fillPercentage (r32 ?x)" .
    from x have e: "0 \<le> (80 - ?x) / 80 * 100" by simp
    from fillPercentage_close [OF x] have "\<bar>fillPercentage (r32 ?x) - (80 - ?x) / 80 * 100\<bar> < 1" by linarith
    from floor_close [OF this] p e c show ?thesis
      by (simp add: float_to_int_def BIN_DEPTH_CM_def)
  qed
  show "0 \<le> calculateFillLevel d" "calculateFillLevel d \<le> 100"
    using calculateFillLevel_range [of d] by simp_all
  show "calculateFillLevel (real_of_int SENSOR_OFFSET_CM + real_of_int BIN_DEPTH_CM / 2) = 50"
  proof -
    have r40: "r32 40 = 40" using r32_of_int [of 40] by simp
    have r50: "r32 50 = 50" "r64 50 = 50" using r32_of_int [of 50] r64_of_int [of 50] by simp_all
    have half: "r32 (1 / 2) = 1 / 2"
      unfolding r32_def using round_float_exact [of "1 / 2" 1 "- 1" 24] by (simp add: power_int_minus)
    show ?thesis
      by (simp add: calculateFillLevel_def Let_def clampLow_def clampHigh_def fillPercentage_def
          float_to_int_def BIN_DEPTH_CM_def SENSOR_OFFSET_CM_def r40 r50 half)
  qed
qed

theorem calculateFillLevel_cases_witness:
  "calculateFillLevel 3 = 100 \<and> calculateFillLevel 90 = 0 \<and> calculateFillLevel 45 = 50 \<and>
   \<bar>calculateFillLevel 45 - float_to_int ((80 - (45 - 5)) / 80 * 100)\<bar> \<le> 1"
  using calculateFillLevel_cases [of 3] calculateFillLevel_cases [of 90] calculateFillLevel_cases [of 45]
  by (simp add: SENSOR_OFFSET_CM_def BIN_DEPTH_CM_def float_to_int_def)

text \<open>
  Claim C9. Whenever the distance reaches the interpolation branch
  (0 < distance - offset < depth), the truncated percentage already lies in [0, 100], so
  neither of the two clamping statements changes it.
\<close>

theorem interpolation_needs_no_clamp:
  assumes "0 < d - real_of_int SENSOR_OFFSET_CM"
    and "d - real_of_int SENSOR_OFFSET_CM < real_of_int BIN_DEPTH_CM"
  shows "let fillLevel = float_to_int (fillPercentage (r32 (d - real_of_int SENSOR_OFFSET_CM))) in
         0 \<le> fillLevel \<and> fillLevel \<le> 100 \<and>
         clampLow fillLevel = fillLevel \<and>
         clampHigh (clampLow fillLevel) = clampLow fillLevel \<and>
         calculateFillLevel d = fillLevel"
proof -
  note a = adjusted_bounds [OF assms]
  from a have "0 \<le> r32 (d - real_of_int SENSOR_OFFSET_CM)" by simp
  note c = percentage_cast_range [OF this a(2)]
  from c calculateFillLevel_interpolated [OF assms] show ?thesis
    by (simp add: Let_def clampLow_def clampHigh_def)
qed

theorem interpolation_needs_no_clamp_witness:
  "(0::real) < 41 - real_of_int SENSOR_OFFSET_CM \<and>
   41 - real_of_int SENSOR_OFFSET_CM < real_of_int BIN_DEPTH_CM \<and>
   float_to_int (fillPercentage (r32 36)) = 55 \<and> clampLow 55 = 55 \<and>
   clampHigh (clampLow 55) = clampLow 55 \<and> calculateFillLevel 41 = 55"
proof -
  have h1: "(0::real) < 41 - real_of_int SENSOR_OFFSET_CM"
    and h2: "41 - real_of_int SENSOR_OFFSET_CM < real_of_int BIN_DEPTH_CM"
    by (simp_all add: SENSOR_OFFSET_CM_def BIN_DEPTH_CM_def)
  have v: "float_to_int (fillPercentage (r32 36)) = 55"
    by code_simp
  have eq: "41 - real_of_int SENSOR_OFFSET_CM = 36"
    by (simp add: SENSOR_OFFSET_CM_def)
  note c = interpolation_needs_no_clamp [OF h1 h2, unfolded Let_def eq v]
  from c h1 h2 v show ?thesis by blast
qed

text \<open>
  Claim C10. calculateFillLevel is monotonically non-increasing in the distance: for
  d1 \<le> d2, the fill level at d1 is at least the fill level at d2.
\<close>

theorem calculateFillLevel_antimono:
  assumes "d1 \<le> d2"
  shows "calculateFillLevel d2 \<le> calculateFillLevel d1"
proof -
  let ?a1 = "r32 (d1 - real_of_int SENSOR_OFFSET_CM)" and ?a2 = "r32 (d2 - real_of_int SENSOR_OFFSET_CM)"
  from assms have "d1 - real_of_int SENSOR_OFFSET_CM \<le> d2 - real_of_int SENSOR_OFFSET_CM" by simp
  then have a: "?a1 \<le> ?a2" by (rule r32_mono)
  consider (full) "?a1 \<le> 0" | (empty) "?a2 \<ge> real_of_int BIN_DEPTH_CM"
    | (mid) "0 < ?a1" "?a2 < real_of_int BIN_DEPTH_CM" by linarith
  then show ?thesis
  proof cases
    case full
    then have "calculateFillLevel d1 = 100" by (simp add: calculateFillLevel_def)
    with calculateFillLevel_range [of d2] show ?thesis by simp
  next
    case empty
    then have "calculateFillLevel d2 = 0" by (simp add: calculateFillLevel_def Let_def BIN_DEPTH_CM_def)
    with calculateFillLevel_range [of d1] show ?thesis by simp
  next
    case mid
    with a have "0 < ?a2" "?a1 < real_of_int BIN_DEPTH_CM" by linarith+
    with mid have "calculateFillLevel d1 = clampHigh (clampLow (float_to_int (fillPercentage ?a1)))"
      "calculateFillLevel d2 = clampHigh (clampLow (float_to_int (fillPercentage ?a2)))"
      by (simp_all add: calculateFillLevel_def Let_def)
    moreover have "float_to_int (fillPercentage ?a2) \<le> float_to_int (fillPercentage ?a1)"
      using a by (intro float_to_int_mono fillPercentage_antimono)
    ultimately show ?thesis by (simp add: clamp_mono)
  qed
qed

theorem calculateFillLevel_antimono_witness:
  "(10::real) \<le> 45 \<and> calculateFillLevel 45 \<le> calculateFillLevel 10"
  using calculateFillLevel_antimono [of 10 45] by simp

section \<open>Properties of measureDistance\<close>

lemma takeReadings_length: "length (takeReadings pulseIn i readings) = length readings"
proof (induction pulseIn i readings rule: takeReadings.induct)
  case (1 pulseIn i readings)
  then show ?case by (subst takeReadings.simps) simp
qed

lemma takeReadings_nth:
  "length readings = NUM_SAMPLES \<Longrightarrow> k < NUM_SAMPLES \<Longrightarrow>
   takeReadings pulseIn i readings ! k =
     (if i \<le> k then echoToReading (pulseIn k) else readings ! k)"
proof (induction pulseIn i readings rule: takeReadings.induct)
  case (1 pulseIn i readings)
  show ?case
  proof (cases "i < NUM_SAMPLES")
    case True
    have unfold: "takeReadings pulseIn i readings =
        takeReadings pulseIn (i + 1) (readings[i := echoToReading (pulseIn i)])"
      using True by (subst takeReadings.simps) simp
    have ih: "takeReadings pulseIn (i + 1) (readings[i := echoToReading (pulseIn i)]) ! k =
        (if i + 1 \<le> k then echoToReading (pulseIn k)
         else readings[i := echoToReading (pulseIn i)] ! k)"
      using "1.IH" [OF True] "1.prems" by simp
    show ?thesis
    proof (cases "k = i")
      case True
      with ih unfold "1.prems" show ?thesis by simp
    next
      case False
      with ih unfold "1.prems" show ?thesis by (simp add: nth_list_update)
    qed
  next
    case False
    then have "takeReadings pulseIn i readings = readings"
      by (subst takeReadings.simps) simp
    with False "1.prems" show ?thesis by simp
  qed
qed

lemma rawReadings_eq:
  "rawReadings pulseIn = map (\<lambda>i. echoToReading (pulseIn i)) [0..<NUM_SAMPLES]"
  unfolding rawReadings_def
  by (rule nth_equalityI) (simp_all add: takeReadings_length takeReadings_nth)

lemma length_rawReadings: "length (rawReadings pulseIn) = NUM_SAMPLES"
  by (simp add: rawReadings_eq)

lemma exchange_step:
  fixes rs :: "real list"
  assumes len: "length rs = NUM_SAMPLES" and ij: "i < j" and jn: "j < NUM_SAMPLES"
    and pre: "\<forall>a b. a < i \<and> a < b \<and> b < NUM_SAMPLES \<longrightarrow> rs ! a \<le> rs ! b"
    and low: "\<forall>k. i < k \<and> k < j \<longrightarrow> rs ! i \<le> rs ! k"
  defines "rs' \<equiv> (if rs ! i > rs ! j then (let temp = rs ! i in rs[i := rs ! j, j := temp]) else rs)"
  shows "length rs' = NUM_SAMPLES" "mset rs' = mset rs"
    "\<forall>a b. a < i \<and> a < b \<and> b < NUM_SAMPLES \<longrightarrow> rs' ! a \<le> rs' ! b"
    "\<forall>k. i < k \<and> k < j + 1 \<longrightarrow> rs' ! i \<le> rs' ! k"
proof -
  show "length rs' = NUM_SAMPLES" using len by (simp add: rs'_def Let_def)
  show "mset rs' = mset rs"
    using len ij jn mset_swap [of j rs i] by (simp add: rs'_def Let_def)
  have nth': "rs' ! m =
      (if rs ! i > rs ! j then (if m = j then rs ! i else if m = i then rs ! j else rs ! m)
       else rs ! m)" if "m < NUM_SAMPLES" for m
    using that len ij jn by (simp add: rs'_def Let_def nth_list_update)
  show "\<forall>a b. a < i \<and> a < b \<and> b < NUM_SAMPLES \<longrightarrow> rs' ! a \<le> rs' ! b"
  proof (intro allI impI)
    fix a b assume ab: "a < i \<and> a < b \<and> b < NUM_SAMPLES"
    from ab ij jn have "rs' ! a = rs ! a" using nth' [of a] by simp
    moreover from pre ab ij jn have "rs ! a \<le> rs ! i" "rs ! a \<le> rs ! j" "rs ! a \<le> rs ! b"
      by simp_all
    moreover from ab have "rs' ! b = rs ! i \<or> rs' ! b = rs ! j \<or> rs' ! b = rs ! b"
      using nth' [of b] by presburger
    ultimately show "rs' ! a \<le> rs' ! b" by auto
  qed
  show "\<forall>k. i < k \<and> k < j + 1 \<longrightarrow> rs' ! i \<le> rs' ! k"
  proof (intro allI impI)
    fix k assume k: "i < k \<and> k < j + 1"
    from ij jn have i': "rs' ! i = (if rs ! i > rs ! j then rs ! j else rs ! i)"
      using nth' [of i] by simp
    show "rs' ! i \<le> rs' ! k"
    proof (cases "k = j")
      case True
      with jn have "rs' ! k = (if rs ! i > rs ! j then rs ! i else rs ! j)"
        using nth' [of j] by simp
      with i' show ?thesis by simp
    next
      case False
      with k have kj: "k < j" by simp
      with k low have "rs ! i \<le> rs ! k" by simp
      moreover from k kj jn have "rs' ! k = rs ! k" using nth' [of k] by simp
      ultimately show ?thesis using i' by simp
    qed
  qed
qed

lemma sortInner_inv:
  "length rs = NUM_SAMPLES \<Longrightarrow> i < j \<Longrightarrow>
   \<forall>a b. a < i \<and> a < b \<and> b < NUM_SAMPLES \<longrightarrow> rs ! a \<le> rs ! b \<Longrightarrow>
   \<forall>k. i < k \<and> k < j \<longrightarrow> rs ! i \<le> rs ! k \<Longrightarrow>
   length (sortInner i j rs) = NUM_SAMPLES \<and> mset (sortInner i j rs) = mset rs \<and>
   (\<forall>a b. a < i \<and> a < b \<and> b < NUM_SAMPLES \<longrightarrow> sortInner i j rs ! a \<le> sortInner i j rs ! b) \<and>
   (\<forall>k. i < k \<and> k < NUM_SAMPLES \<longrightarrow> sortInner i j rs ! i \<le> sortInner i j rs ! k)"
proof (induction i j rs rule: sortInner.induct)
  case (1 i j rs)
  show ?case
  proof (cases "j < NUM_SAMPLES")
    case True
    define rs' where "rs' = (if rs ! i > rs ! j then (let temp = rs ! i in rs[i := rs ! j, j := temp]) else rs)"
    note step = exchange_step [OF "1.prems"(1,2) True "1.prems"(3,4), folded rs'_def]
    have unfold: "sortInner i j rs = sortInner i (j + 1) rs'"
      using True by (subst sortInner.simps) (simp add: rs'_def)
    have "length (sortInner i (j + 1) rs') = NUM_SAMPLES \<and> mset (sortInner i (j + 1) rs') = mset rs' \<and>
      (\<forall>a b. a < i \<and> a < b \<and> b < NUM_SAMPLES \<longrightarrow> sortInner i (j + 1) rs' ! a \<le> sortInner i (j + 1) rs' ! b) \<and>
      (\<forall>k. i < k \<and> k < NUM_SAMPLES \<longrightarrow> sortInner i (j + 1) rs' ! i \<le> sortInner i (j + 1) rs' ! k)"
      using "1.IH" [OF True, folded rs'_def] step "1.prems"(2) by simp
    with step(2) unfold show ?thesis by simp
  next
    case False
    then have "sortInner i j rs = rs" by (subst sortInner.simps) simp
    moreover from False "1.prems"(4) have "\<forall>k. i < k \<and> k < NUM_SAMPLES \<longrightarrow> rs ! i \<le> rs ! k" by simp
    ultimately show ?thesis using "1.prems" by simp
  qed
qed

lemma sortOuter_inv:
  "length rs = NUM_SAMPLES \<Longrightarrow>
   \<forall>a b. a < i \<and> a < b \<and> b < NUM_SAMPLES \<longrightarrow> rs ! a \<le> rs ! b \<Longrightarrow>
   length (sortOuter i rs) = NUM_SAMPLES \<and> mset (sortOuter i rs) = mset rs \<and>
   (\<forall>a b. a < b \<and> b < NUM_SAMPLES \<longrightarrow> sortOuter i rs ! a \<le> sortOuter i rs ! b)"
proof (induction i rs rule: sortOuter.induct)
  case (1 i rs)
  show ?case
  proof (cases "i < NUM_SAMPLES - 1")
    case True
    define rs' where "rs' = sortInner i (i + 1) rs"
    have inner: "length rs' = NUM_SAMPLES \<and> mset rs' = mset rs \<and>
      (\<forall>a b. a < i \<and> a < b \<and> b < NUM_SAMPLES \<longrightarrow> rs' ! a \<le> rs' ! b) \<and>
      (\<forall>k. i < k \<and> k < NUM_SAMPLES \<longrightarrow> rs' ! i \<le> rs' ! k)"
      unfolding rs'_def using "1.prems" by (intro sortInner_inv) simp_all
    have next_pre: "\<forall>a b. a < i + 1 \<and> a < b \<and> b < NUM_SAMPLES \<longrightarrow> rs' ! a \<le> rs' ! b"
    proof (intro allI impI)
      fix a b assume ab: "a < i + 1 \<and> a < b \<and> b < NUM_SAMPLES"
      show "rs' ! a \<le> rs' ! b"
      proof (cases "a = i")
        case True with ab inner show ?thesis by simp
      next
        case False with ab have "a < i" by simp
        with ab inner show ?thesis by simp
      qed
    qed
    have unfold: "sortOuter i rs = sortOuter (i + 1) rs'"
      using True by (subst sortOuter.simps) (simp add: rs'_def)
    from "1.IH" [OF True, folded rs'_def] inner next_pre
    have "length (sortOuter (i + 1) rs') = NUM_SAMPLES \<and> mset (sortOuter (i + 1) rs') = mset rs' \<and>
      (\<forall>a b. a < b \<and> b < NUM_SAMPLES \<longrightarrow> sortOuter (i + 1) rs' ! a \<le> sortOuter (i + 1) rs' ! b)"
      by simp
    with inner unfold show ?thesis by simp
  next
    case False
    then have eq: "sortOuter i rs = rs" by (subst sortOuter.simps) simp
    have "\<forall>a b. a < b \<and> b < NUM_SAMPLES \<longrightarrow> rs ! a \<le> rs ! b"
    proof (intro allI impI)
      fix a b assume ab: "a < b \<and> b < NUM_SAMPLES"
      with False have "a < i" by auto
      with ab "1.prems"(2) show "rs ! a \<le> rs ! b" by simp
    qed
    with eq "1.prems"(1) show ?thesis by simp
  qed
qed

lemma sortOuter_sort:
  assumes "length rs = NUM_SAMPLES"
  shows "sortOuter 0 rs = sort rs"
proof -
  from sortOuter_inv [OF assms, of 0]
  have len: "length (sortOuter 0 rs) = NUM_SAMPLES" and ms: "mset (sortOuter 0 rs) = mset rs"
    and ord: "\<forall>a b. a < b \<and> b < NUM_SAMPLES \<longrightarrow> sortOuter 0 rs ! a \<le> sortOuter 0 rs ! b"
    by simp_all
  from ord len have "sorted (sortOuter 0 rs)" by (simp add: sorted_iff_nth_mono_less)
  with ms show ?thesis by (simp add: properties_for_sort)
qed

lemma sortedReadings_sort: "sortedReadings pulseIn = sort (rawReadings pulseIn)"
  by (simp add: sortedReadings_def length_rawReadings sortOuter_sort)

lemma measureDistance_median: "measureDistance pulseIn = spec_median (rawReadings pulseIn)"
  by (simp add: measureDistance_def sortedReadings_sort spec_median_def length_rawReadings)

lemma median_mset: "mset xs = mset ys \<Longrightarrow> spec_median xs = spec_median ys"
proof -
  assume eq: "mset xs = mset ys"
  then have "sort xs = sort ys"
    by (metis sorted_list_of_multiset_mset)
  moreover from eq have "length xs = length ys" by (rule mset_eq_length)
  ultimately show ?thesis by (simp add: spec_median_def)
qed

lemma median_constant:
  assumes "xs \<noteq> []" "\<forall>x \<in> set xs. x = c"
  shows "spec_median xs = c"
proof -
  have "length xs div 2 < length (sort xs)" using assms(1) by simp
  then have "sort xs ! (length xs div 2) \<in> set (sort xs)" by (rule nth_mem)
  with assms(2) show ?thesis by (simp add: spec_median_def)
qed

lemma sorted_count_le:
  fixes s :: "real list"
  assumes "sorted s" "k < length s"
  shows "k < length (filter (\<lambda>x. x \<le> s ! k) s)"
proof -
  have all: "\<forall>x \<in> set (take (Suc k) s). x \<le> s ! k"
  proof
    fix x assume "x \<in> set (take (Suc k) s)"
    then obtain a where a: "a < Suc k" "x = s ! a"
      using assms(2) by (auto simp: in_set_conv_nth)
    with assms show "x \<le> s ! k" by (simp add: sorted_nth_mono)
  qed
  have "filter (\<lambda>x. x \<le> s ! k) s =
      filter (\<lambda>x. x \<le> s ! k) (take (Suc k) s) @ filter (\<lambda>x. x \<le> s ! k) (drop (Suc k) s)"
    by (metis append_take_drop_id filter_append)
  also have "filter (\<lambda>x. x \<le> s ! k) (take (Suc k) s) = take (Suc k) s"
    using all by (simp add: filter_id_conv)
  finally have "length (filter (\<lambda>x. x \<le> s ! k) s) \<ge> length (take (Suc k) s)" by simp
  with assms(2) show ?thesis by simp
qed

lemma sorted_count_ge:
  fixes s :: "real list"
  assumes "sorted s" "k < length s"
  shows "length s - k \<le> length (filter (\<lambda>x. s ! k \<le> x) s)"
proof -
  have all: "\<forall>x \<in> set (drop k s). s ! k \<le> x"
  proof
    fix x assume "x \<in> set (drop k s)"
    then obtain a where a: "a < length s - k" "x = s ! (k + a)"
      by (auto simp: in_set_conv_nth)
    with assms show "s ! k \<le> x" by (simp add: sorted_nth_mono)
  qed
  have "filter (\<lambda>x. s ! k \<le> x) s =
      filter (\<lambda>x. s ! k \<le> x) (take k s) @ filter (\<lambda>x. s ! k \<le> x) (drop k s)"
    by (metis append_take_drop_id filter_append)
  also have "filter (\<lambda>x. s ! k \<le> x) (drop k s) = drop k s"
    using all by (simp add: filter_id_conv)
  finally have "length (filter (\<lambda>x. s ! k \<le> x) s) \<ge> length (drop k s)" by simp
  then show ?thesis by simp
qed

lemma median_counts:
  fixes xs :: "real list"
  assumes "xs \<noteq> []"
  shows "length xs < 2 * size (filter_mset (\<lambda>x. x \<le> spec_median xs) (mset xs))"
    and "length xs \<le> 2 * size (filter_mset (\<lambda>x. spec_median xs \<le> x) (mset xs))"
proof -
  let ?s = "sort xs" and ?k = "length xs div 2"
  have k: "?k < length ?s" using assms by simp
  have ms: "mset xs = mset ?s" by simp
  have le: "size (filter_mset (\<lambda>x. x \<le> spec_median xs) (mset xs)) = length (filter (\<lambda>x. x \<le> ?s ! ?k) ?s)"
    unfolding spec_median_def by (subst ms) (simp only: flip: mset_filter, simp only: size_mset)
  have ge: "size (filter_mset (\<lambda>x. spec_median xs \<le> x) (mset xs)) = length (filter (\<lambda>x. ?s ! ?k \<le> x) ?s)"
    unfolding spec_median_def by (subst ms) (simp only: flip: mset_filter, simp only: size_mset)
  from sorted_count_le [of ?s ?k] k have "?k < length (filter (\<lambda>x. x \<le> ?s ! ?k) ?s)" by simp
  with le show "length xs < 2 * size (filter_mset (\<lambda>x. x \<le> spec_median xs) (mset xs))" by linarith
  from sorted_count_ge [of ?s ?k] k have "length ?s - ?k \<le> length (filter (\<lambda>x. ?s ! ?k \<le> x) ?s)" by simp
  with ge show "length xs \<le> 2 * size (filter_mset (\<lambda>x. spec_median xs \<le> x) (mset xs))" by simp
qed

lemma rawReadings_5:
  "rawReadings pulseIn = [echoToReading (pulseIn 0), echoToReading (pulseIn 1),
     echoToReading (pulseIn 2), echoToReading (pulseIn 3), echoToReading (pulseIn 4)]"
  by (simp add: rawReadings_eq NUM_SAMPLES_def upt_rec eval_nat_numeral)

lemma measureDistance_constant:
  "measureDistance (\<lambda>i. d) = echoToReading d"
proof -
  have "rawReadings (\<lambda>i. d) \<noteq> []" using length_rawReadings [of "\<lambda>i. d"] by (auto simp: NUM_SAMPLES_def)
  moreover have "\<forall>x \<in> set (rawReadings (\<lambda>i. d)). x = echoToReading d"
    by (auto simp: rawReadings_eq)
  ultimately show ?thesis by (simp add: measureDistance_median median_constant)
qed

text \<open>
  Claim C2. For every sequence of collected raw readings, measureDistance returns the
  true statistical spec_median of that multiset (the middle element of the sorted readings:
  more than half of the readings are at most it and more than half are at least it),
  whatever the order in which the readings were collected; and when every reading is
  the sentinel MAX_DISTANCE_CM, the result is the sentinel.
\<close>

theorem measureDistance_true_median:
  "measureDistance pulseIn = spec_median (rawReadings pulseIn) \<and>
   NUM_SAMPLES < 2 * size (filter_mset (\<lambda>x. x \<le> measureDistance pulseIn) (mset (rawReadings pulseIn))) \<and>
   NUM_SAMPLES < 2 * size (filter_mset (\<lambda>x. measureDistance pulseIn \<le> x) (mset (rawReadings pulseIn))) \<and>
   (mset (rawReadings pulseIn') = mset (rawReadings pulseIn) \<longrightarrow>
      measureDistance pulseIn' = measureDistance pulseIn) \<and>
   ((\<forall>r \<in> set (rawReadings pulseIn). r = real_of_int MAX_DISTANCE_CM) \<longrightarrow>
      measureDistance pulseIn = real_of_int MAX_DISTANCE_CM)"
proof (intro conjI impI)
  have ne: "rawReadings pulseIn \<noteq> []"
    using length_rawReadings [of pulseIn] by (auto simp: NUM_SAMPLES_def)
  show "measureDistance pulseIn = spec_median (rawReadings pulseIn)"
    by (rule measureDistance_median)
  show "NUM_SAMPLES < 2 * size (filter_mset (\<lambda>x. x \<le> measureDistance pulseIn) (mset (rawReadings pulseIn)))"
    using median_counts(1) [OF ne] by (simp add: measureDistance_median length_rawReadings)
  have "odd NUM_SAMPLES" by (simp add: NUM_SAMPLES_def)
  moreover have "NUM_SAMPLES \<le> 2 * size (filter_mset (\<lambda>x. measureDistance pulseIn \<le> x) (mset (rawReadings pulseIn)))"
    using median_counts(2) [OF ne] by (simp add: measureDistance_median length_rawReadings)
  ultimately show "NUM_SAMPLES < 2 * size (filter_mset (\<lambda>x. measureDistance pulseIn \<le> x) (mset (rawReadings pulseIn)))"
    by (metis dvd_triv_left le_neq_implies_less)
  show "measureDistance pulseIn' = measureDistance pulseIn"
    if "mset (rawReadings pulseIn') = mset (rawReadings pulseIn)"
    using median_mset [OF that] by (simp add: measureDistance_median)
  show "measureDistance pulseIn = real_of_int MAX_DISTANCE_CM"
    if "\<forall>r \<in> set (rawReadings pulseIn). r = real_of_int MAX_DISTANCE_CM"
    using median_constant [OF ne that] by (simp add: measureDistance_median)
qed

theorem measureDistance_true_median_witness:
  "mset (rawReadings (\<lambda>i. [0, 2412, 2353, 2412, 2471] ! i)) = mset (rawReadings (\<lambda>i. [2353, 2471, 2412, 0, 2412] ! i)) \<and>
   measureDistance (\<lambda>i. [0, 2412, 2353, 2412, 2471] ! i) = measureDistance (\<lambda>i. [2353, 2471, 2412, 0, 2412] ! i) \<and>
   set (rawReadings (\<lambda>i. 0)) = {real_of_int MAX_DISTANCE_CM} \<and>
   measureDistance (\<lambda>i. 0) = real_of_int MAX_DISTANCE_CM"
proof -
  have perm: "mset (rawReadings (\<lambda>i. [0, 2412, 2353, 2412, 2471] ! i)) = mset (rawReadings (\<lambda>i. [2353, 2471, 2412, 0, 2412] ! i))"
    by (simp add: rawReadings_5 echoToReading_def)
  have sentinel: "set (rawReadings (\<lambda>i. 0)) = {real_of_int MAX_DISTANCE_CM}"
    by (simp add: rawReadings_5 echoToReading_def)
  from perm sentinel
    measureDistance_true_median [of "\<lambda>i. 0" "\<lambda>i. 0"]
    measureDistance_true_median [of "\<lambda>i. [2353, 2471, 2412, 0, 2412] ! i" "\<lambda>i. [0, 2412, 2353, 2412, 2471] ! i"]
  show ?thesis by blast
qed

lemma measureDistance_bound:
  assumes "\<forall>i < NUM_SAMPLES. 0 \<le> pulseIn i \<and> pulseIn i \<le> 30000"
  shows "0 \<le> measureDistance pulseIn \<and> measureDistance pulseIn \<le> 510"
proof -
  have ne: "NUM_SAMPLES div 2 < length (sort (rawReadings pulseIn))"
    by (simp add: length_rawReadings NUM_SAMPLES_def)
  have "measureDistance pulseIn \<in> set (sort (rawReadings pulseIn))"
    unfolding measureDistance_def sortedReadings_sort using ne by (rule nth_mem)
  then obtain i where i: "i < NUM_SAMPLES" "measureDistance pulseIn = echoToReading (pulseIn i)"
    by (auto simp: rawReadings_eq)
  from assms i(1) have "0 \<le> pulseIn i" "pulseIn i \<le> 30000" by simp_all
  then have "0 \<le> echoToReading (pulseIn i) \<and> echoToReading (pulseIn i) \<le> 510"
    by (simp add: echoToReading_def MAX_DISTANCE_CM_def)
  with i(2) show ?thesis by simp
qed

text \<open>
  Claim C5 fails on the code: an echo of 20000 microseconds lies within the 30000
  microsecond window of pulseIn, and five such echoes give an estimate of 340 cm, above
  MAX_DISTANCE_CM.
\<close>

theorem measureDistance_exceeds_max:
  "measureDistance (\<lambda>i. 20000) = 340 \<and> real_of_int MAX_DISTANCE_CM < measureDistance (\<lambda>i. 20000)"
  by (simp add: measureDistance_constant echoToReading_def MAX_DISTANCE_CM_def)

text \<open>
  Claim C7. Whenever an echo measurement times out (duration 0), the reading recorded
  for that sample is MAX_DISTANCE_CM; nothing fails, and the array holds a reading for
  every one of the NUM_SAMPLES samples.
\<close>

theorem timeout_records_sentinel:
  assumes "i < NUM_SAMPLES" "pulseIn i = 0"
  shows "rawReadings pulseIn ! i = real_of_int MAX_DISTANCE_CM \<and>
         length (rawReadings pulseIn) = NUM_SAMPLES \<and>
         (\<forall>k < NUM_SAMPLES. rawReadings pulseIn ! k = echoToReading (pulseIn k))"
  using assms by (simp add: rawReadings_eq echoToReading_def)

theorem timeout_records_sentinel_witness:
  "(3::nat) < NUM_SAMPLES \<and> [2353, 2471, 2412, 0, 2412 :: int] ! 3 = 0 \<and>
   rawReadings (\<lambda>i. [2353, 2471, 2412, 0, 2412] ! i) ! 3 = real_of_int MAX_DISTANCE_CM"
  using timeout_records_sentinel [of 3 "\<lambda>i. [2353, 2471, 2412, 0, 2412] ! i"]
  by (simp add: NUM_SAMPLES_def)

section \<open>Properties of the telemetry payload\<close>

text \<open>A 16-bit and a 32-bit value are the little-endian sums of the bytes the encoder extracts.\<close>

lemma and_255_nat: "(x::nat) AND 255 = x mod 256"
proof -
  have "x AND mask 8 = x mod 2 ^ 8"
    by (simp only: take_bit_eq_mask [symmetric] take_bit_eq_mod)
  then show ?thesis by (simp add: mask_eq_exp_minus_1)
qed

lemma byte16:
  fixes w :: "16 word"
  shows "unat (ucast (drop_bit n w AND 0xFF) :: 8 word) = unat w div 2 ^ n mod 256"
proof -
  have "unat (ucast (drop_bit n w AND 0xFF) :: 8 word) = drop_bit n (unat w) mod 256"
    by (simp add: unsigned_ucast_eq unsigned_and_eq and_255_nat unat_drop_bit_eq take_bit_eq_mod)
  then show ?thesis by (simp add: drop_bit_eq_div)
qed

lemma byte32:
  fixes w :: "32 word"
  shows "unat (ucast (drop_bit n w AND 0xFF) :: 8 word) = unat w div 2 ^ n mod 256"
proof -
  have "unat (ucast (drop_bit n w AND 0xFF) :: 8 word) = drop_bit n (unat w) mod 256"
    by (simp add: unsigned_ucast_eq unsigned_and_eq and_255_nat unat_drop_bit_eq take_bit_eq_mod)
  then show ?thesis by (simp add: drop_bit_eq_div)
qed

lemma le16:
  fixes w :: "16 word"
  shows "unat (ucast (w AND 0xFF) :: 8 word) + 256 * unat (ucast (drop_bit 8 w AND 0xFF) :: 8 word) = unat w"
proof -
  have lt: "unat w < 65536" using unsigned_less [of w, where 'a = nat] by simp
  have b0: "unat (ucast (w AND 0xFF) :: 8 word) = unat w mod 256"
    using byte16 [of 0 w] by simp
  have b1: "unat (ucast (drop_bit 8 w AND 0xFF) :: 8 word) = unat w div 256 mod 256"
    using byte16 [of 8 w] by simp
  from lt have "unat w div 256 < 256" by simp
  then show ?thesis unfolding b0 b1 by simp
qed

lemma le32:
  fixes w :: "32 word"
  shows "unat (ucast (w AND 0xFF) :: 8 word) + 256 * unat (ucast (drop_bit 8 w AND 0xFF) :: 8 word)
     + 65536 * unat (ucast (drop_bit 16 w AND 0xFF) :: 8 word)
     + 16777216 * unat (ucast (drop_bit 24 w AND 0xFF) :: 8 word) = unat w"
proof -
  have lt: "unat w < 4294967296" using unsigned_less [of w, where 'a = nat] by simp
  have b0: "unat (ucast (w AND 0xFF) :: 8 word) = unat w mod 256"
    using byte32 [of 0 w] by simp
  have b1: "unat (ucast (drop_bit 8 w AND 0xFF) :: 8 word) = unat w div 256 mod 256"
    using byte32 [of 8 w] by simp
  have b2: "unat (ucast (drop_bit 16 w AND 0xFF) :: 8 word) = unat w div 65536 mod 256"
    using byte32 [of 16 w] by simp
  have b3: "unat (ucast (drop_bit 24 w AND 0xFF) :: 8 word) = unat w div 16777216 mod 256"
    using byte32 [of 24 w] by simp
  define x where "x = unat w"
  have d1: "x div 65536 = x div 256 div 256" by (simp add: div_mult2_eq [symmetric])
  have d2: "x div 16777216 = x div 256 div 256 div 256" by (simp add: div_mult2_eq [symmetric])
  from lt have "x div 256 div 256 div 256 < 256" unfolding x_def by simp
  then have top: "x div 256 div 256 div 256 mod 256 = x div 256 div 256 div 256" by simp
  have "x mod 256 + 256 * (x div 256 mod 256) + 65536 * (x div 65536 mod 256)
      + 16777216 * (x div 16777216 mod 256) = x"
    unfolding d1 d2 top
    using mult_div_mod_eq [of 256 x] mult_div_mod_eq [of 256 "x div 256"]
      mult_div_mod_eq [of 256 "x div 256 div 256"] by linarith
  then show ?thesis unfolding b0 b1 b2 b3 x_def .
qed

lemma appendBinId_eq:
  "appendBinId binId i acc = acc @ map of_char (drop i (take 6 binId))"
proof (induction binId i acc rule: appendBinId.induct)
  case (1 binId i acc)
  show ?case
  proof (cases "i < 6 \<and> i < length binId")
    case True
    then have "drop i (take 6 binId) = binId ! i # drop (i + 1) (take 6 binId)"
      by (simp add: Cons_nth_drop_Suc [symmetric])
    moreover have "appendBinId binId i acc = appendBinId binId (i + 1) (acc @ [of_char (binId ! i)])"
      using True by (subst appendBinId.simps) simp
    ultimately show ?thesis using "1.IH" [OF True] by simp
  next
    case False
    then have "drop i (take 6 binId) = []" by auto
    moreover have "appendBinId binId i acc = acc"
      by (subst appendBinId.simps) (simp only: False if_False)
    ultimately show ?thesis by simp
  qed
qed


lemma float_to_int_of_int [simp]: "float_to_int (real_of_int n) = n"
  by (simp add: float_to_int_def)

lemma float_to_uint16_in_range:
  assumes "0 \<le> float_to_int x" "float_to_int x < 65536"
  shows "float_to_uint16 indeterminate x = word_of_int (float_to_int x)"
    and "int (unat (float_to_uint16 indeterminate x)) = float_to_int x"
proof -
  show eq: "float_to_uint16 indeterminate x = word_of_int (float_to_int x)"
    using assms by (simp add: float_to_uint16_def Let_def)
  have "uint (word_of_int (float_to_int x) :: 16 word) = float_to_int x"
    using assms by (simp add: uint_word_of_int take_bit_eq_mod)
  then show "int (unat (float_to_uint16 indeterminate x)) = float_to_int x"
    unfolding eq by simp
qed

text \<open>
  The truncation of a single-precision value in the 16-bit range is the truncation of
  the exact value or one more, and less than 1 away from the exact value.
\<close>

lemma truncated_r32_close:
  assumes lo: "0 \<le> float_to_int (r32 y)" and hi: "float_to_int (r32 y) < 65536"
  shows "float_to_int (r32 y) = float_to_int y \<or> float_to_int (r32 y) = float_to_int y + 1"
    and "\<bar>y - real_of_int (float_to_int (r32 y))\<bar> < 1"
proof -
  have r65536: "r32 65536 = 65536" using r32_of_int [of 65536] by simp
  have rm1: "r32 (- 1) = - 1" using r32_of_int [of "- 1"] by simp
  have y_hi: "y < 65536"
  proof (rule ccontr)
    assume "\<not> y < 65536"
    then have "65536 \<le> y" by simp
    from r32_mono [OF this] have "65536 \<le> r32 y" by (simp add: r65536)
    from float_to_int_mono [OF this] have "65536 \<le> float_to_int (r32 y)"
      using float_to_int_of_int [of 65536] by simp
    with hi show False by simp
  qed
  have y_lo: "- 1 < y"
  proof (rule ccontr)
    assume "\<not> - 1 < y"
    then have "y \<le> - 1" by simp
    from r32_mono [OF this] have "r32 y \<le> - 1" by (simp add: rm1)
    from float_to_int_mono [OF this] have "float_to_int (r32 y) \<le> - 1"
      using float_to_int_of_int [of "- 1"] by simp
    with lo show False by simp
  qed
  have both: "(float_to_int (r32 y) = float_to_int y \<or> float_to_int (r32 y) = float_to_int y + 1) \<and>
      \<bar>y - real_of_int (float_to_int (r32 y))\<bar> < 1"
  proof (cases "0 \<le> y")
    case True
    define m where "m = \<lfloor>y\<rfloor>"
    have m: "real_of_int m \<le> y" "y < real_of_int m + 1" unfolding m_def by linarith+
    from True have m0: "0 \<le> m" by (simp add: m_def)
    from m(1) y_hi have "real_of_int m < 65536" by linarith
    then have m1: "m < 65536" by linarith
    have fy: "float_to_int y = m" using True by (simp add: float_to_int_def m_def)
    have "y \<le> real_of_int (m + 1)" using m(2) by simp
    from r32_mono [OF m(1)] r32_mono [OF this] r32_of_int [of m] r32_of_int [of "m + 1"] m0 m1
    have r: "real_of_int m \<le> r32 y" "r32 y \<le> real_of_int m + 1" by simp_all
    from r(1) m0 have "0 \<le> r32 y" by linarith
    then have fr: "float_to_int (r32 y) = \<lfloor>r32 y\<rfloor>" by (simp add: float_to_int_def)
    show ?thesis
    proof (cases "r32 y = real_of_int m + 1")
      case True
      have "r32 y = real_of_int (m + 1)" using True by simp
      then have t: "float_to_int (r32 y) = m + 1" by (simp only: float_to_int_of_int)
      have "y \<noteq> real_of_int m"
      proof
        assume "y = real_of_int m"
        with r32_of_int [of m] m0 m1 have "r32 y = real_of_int m" by simp
        with True show False by simp
      qed
      with m have "real_of_int m < y" by simp
      with m(2) t fy show ?thesis by simp
    next
      case False
      with r have "real_of_int m \<le> r32 y" "r32 y < real_of_int m + 1" by simp_all
      then have "\<lfloor>r32 y\<rfloor> = m" by (simp add: floor_eq_iff)
      with fr have t: "float_to_int (r32 y) = m" by simp
      with m fy show ?thesis by simp
    qed
  next
    case False
    then have neg: "y < 0" by simp
    then have fy: "float_to_int y = \<lceil>y\<rceil>" by (simp add: float_to_int_def)
    from y_lo neg have cy: "\<lceil>y\<rceil> = 0" by (simp add: ceiling_eq_iff)
    from neg have "y \<le> 0" by simp
    from r32_mono [OF this] have r0: "r32 y \<le> 0" by simp
    from float_to_int_mono [OF r0] have "float_to_int (r32 y) \<le> 0"
      using float_to_int_of_int [of 0] by simp
    with lo have t: "float_to_int (r32 y) = 0" by simp
    with fy cy y_lo neg show ?thesis by simp
  qed
  from both show "float_to_int (r32 y) = float_to_int y \<or> float_to_int (r32 y) = float_to_int y + 1"
    and "\<bar>y - real_of_int (float_to_int (r32 y))\<bar> < 1" by simp_all
qed

lemma encodePayload_eq:
  "encodePayload indeterminate binId fillLevel voltage millis =
    map of_char (take 6 binId) @
      [word_of_int fillLevel,
       ucast (voltageMillivolts indeterminate voltage AND 0xFF),
       ucast (drop_bit 8 (voltageMillivolts indeterminate voltage) AND 0xFF),
       ucast ((millis div 1000) AND 0xFF),
       ucast (drop_bit 8 (millis div 1000) AND 0xFF),
       ucast (drop_bit 16 (millis div 1000) AND 0xFF),
       ucast (drop_bit 24 (millis div 1000) AND 0xFF)]"
  by (simp add: encodePayload_def Let_def appendBinId_eq)

lemma encodePayload_fields:
  fixes indeterminate :: "16 word" and fillLevel :: int and voltage :: real and millis :: "32 word"
  assumes "6 \<le> length binId"
  defines "p \<equiv> encodePayload indeterminate binId fillLevel voltage millis"
  shows "length p = 13"
    and "take 6 p = map of_char (take 6 binId)"
    and "p ! 6 = word_of_int fillLevel"
    and "0 \<le> fillLevel \<and> fillLevel \<le> 100 \<longrightarrow> uint (p ! 6) = fillLevel"
    and "unat (p ! 7) + 256 * unat (p ! 8) = unat (voltageMillivolts indeterminate voltage)"
    and "unat (p ! 9) + 256 * unat (p ! 10) + 65536 * unat (p ! 11) + 16777216 * unat (p ! 12)
       = unat (millis div 1000)"
proof -
  let ?mv = "voltageMillivolts indeterminate voltage"
  let ?ts = "millis div 1000"
  let ?id = "map of_char (take 6 binId) :: byte list"
  let ?tl = "[word_of_int fillLevel, ucast (?mv AND 0xFF), ucast (drop_bit 8 ?mv AND 0xFF),
       ucast (?ts AND 0xFF), ucast (drop_bit 8 ?ts AND 0xFF),
       ucast (drop_bit 16 ?ts AND 0xFF), ucast (drop_bit 24 ?ts AND 0xFF)] :: byte list"
  have enc: "p = ?id @ ?tl" unfolding p_def by (rule encodePayload_eq)
  have len: "length ?id = 6" using assms(1) by simp
  have nth: "p ! (6 + k) = ?tl ! k" for k
    unfolding enc using len by (metis nth_append_length_plus)
  have b6: "p ! 6 = word_of_int fillLevel" using nth [of 0] by simp
  have b7: "p ! 7 = ucast (?mv AND 0xFF)" using nth [of 1] by simp
  have b8: "p ! 8 = ucast (drop_bit 8 ?mv AND 0xFF)" using nth [of 2] by simp
  have b9: "p ! 9 = ucast (?ts AND 0xFF)" using nth [of 3] by simp
  have b10: "p ! 10 = ucast (drop_bit 8 ?ts AND 0xFF)" using nth [of 4] by simp
  have b11: "p ! 11 = ucast (drop_bit 16 ?ts AND 0xFF)" using nth [of 5] by simp
  have b12: "p ! 12 = ucast (drop_bit 24 ?ts AND 0xFF)" using nth [of 6] by simp
  show "length p = 13" unfolding enc using len by simp
  show "take 6 p = ?id" unfolding enc using len by simp
  show "p ! 6 = word_of_int fillLevel" by (rule b6)
  show "0 \<le> fillLevel \<and> fillLevel \<le> 100 \<longrightarrow> uint (p ! 6) = fillLevel"
    unfolding b6 by (simp add: uint_word_of_int take_bit_eq_mod)
  show "unat (p ! 7) + 256 * unat (p ! 8) = unat ?mv"
    unfolding b7 b8 by (rule le16)
  show "unat (p ! 9) + 256 * unat (p ! 10) + 65536 * unat (p ! 11) + 16777216 * unat (p ! 12)
       = unat ?ts"
    unfolding b9 b10 b11 b12 by (rule le32)
qed

lemma voltageMillivolts_in_range:
  assumes "0 \<le> float_to_int (r32 (voltage * 1000))" "float_to_int (r32 (voltage * 1000)) < 65536"
  shows "int (unat (voltageMillivolts indeterminate voltage)) = float_to_int (r32 (voltage * 1000))"
  unfolding voltageMillivolts_def using assms by (rule float_to_uint16_in_range(2))

lemma spec_decodePayload_encodePayload:
  "\<exists>t. spec_decodePayload (encodePayload indeterminate BIN_ID fillLevel voltage millis) = Some t \<and>
     (0 \<le> fillLevel \<and> fillLevel \<le> 100 \<longrightarrow> int (fill t) = fillLevel) \<and>
     millivolts t = unat (voltageMillivolts indeterminate voltage) \<and>
     uptime t = unat (millis div 1000)"
proof -
  define p where "p = encodePayload indeterminate BIN_ID fillLevel voltage millis"
  have "6 \<le> length BIN_ID" by (simp add: BIN_ID_def)
  note f = encodePayload_fields [OF this, where indeterminate = indeterminate
      and fillLevel = fillLevel and voltage = voltage and millis = millis, folded p_def]
  define t where "t = \<lparr>fill = unat (p ! 6), millivolts = unat (p ! 7) + 256 * unat (p ! 8),
     uptime = unat (p ! 9) + 256 * unat (p ! 10) + 65536 * unat (p ! 11) + 16777216 * unat (p ! 12)\<rparr>"
  have dec: "spec_decodePayload p = Some t" using f(1) by (simp add: spec_decodePayload_def t_def)
  have fl: "0 \<le> fillLevel \<and> fillLevel \<le> 100 \<longrightarrow> int (fill t) = fillLevel"
    using f(4) by (simp add: t_def)
  have m: "millivolts t = unat (voltageMillivolts indeterminate voltage)" using f(5) by (simp add: t_def)
  have u: "uptime t = unat (millis div 1000)" using f(6) by (simp add: t_def)
  from dec fl m u show ?thesis unfolding p_def by blast
qed

text \<open>
  Claim C3 as stated fails: the identifier loop stops at the end of a short identifier
  and nothing pads it, so the two-character identifier AB gives a payload of 9 bytes;
  and at 70 V the millivolt value 70000 is more than 16 bits hold.
\<close>

theorem payload_layout_counterexample:
  "length (encodePayload 0 ''AB'' 50 3.5 10000) = 9 \<and>
   float_to_int (r32 (70 * 1000)) = 70000 \<and> \<not> (70000 :: int) < 65536"
proof -
  have "r32 70000 = 70000" using r32_of_int [of 70000] by simp
  then show ?thesis by (simp add: encodePayload_eq float_to_int_def)
qed

text \<open>
  Claim C3, amended. For every identifier of at least 6 characters (the configured
  VAR_012 is one), every fill level, every voltage and every uptime value, the payload is
  exactly 13 bytes: bytes 0-5 are the first 6 characters of the identifier, byte 6 is the
  fill level (its low 8 bits, the level itself when it is in [0, 100]), bytes 7-8 are the
  16-bit millivolt value, little-endian, and bytes 9-12 the uptime in seconds as an
  unsigned 32-bit little-endian value. The millivolt value is the truncation of the
  single-precision product voltage * 1000 whenever that lies in [0, 65535].
\<close>

theorem payload_layout:
  assumes "6 \<le> length binId"
  shows "let p = encodePayload indeterminate binId fillLevel voltage millis in
     length p = 13 \<and>
     take 6 p = map of_char (take 6 binId) \<and>
     p ! 6 = word_of_int fillLevel \<and>
     (0 \<le> fillLevel \<and> fillLevel \<le> 100 \<longrightarrow> uint (p ! 6) = fillLevel) \<and>
     unat (p ! 7) + 256 * unat (p ! 8) = unat (voltageMillivolts indeterminate voltage) \<and>
     (0 \<le> float_to_int (r32 (voltage * 1000)) \<and> float_to_int (r32 (voltage * 1000)) < 65536 \<longrightarrow>
        int (unat (voltageMillivolts indeterminate voltage)) = float_to_int (r32 (voltage * 1000))) \<and>
     unat (p ! 9) + 256 * unat (p ! 10) + 65536 * unat (p ! 11) + 16777216 * unat (p ! 12)
       = unat (millis div 1000)"
  using encodePayload_fields [OF assms, where indeterminate = indeterminate
      and fillLevel = fillLevel and voltage = voltage and millis = millis]
    voltageMillivolts_in_range [of voltage indeterminate]
  by (simp add: Let_def)

theorem payload_layout_witness:
  "6 \<le> length BIN_ID \<and> (0::int) \<le> 55 \<and> (55::int) \<le> 100 \<and>
   0 \<le> float_to_int (r32 (3.5 * 1000)) \<and> float_to_int (r32 (3.5 * 1000)) < 65536 \<and>
   length (encodePayload 0 BIN_ID 55 3.5 123456789) = 13 \<and>
   take 6 (encodePayload 0 BIN_ID 55 3.5 123456789) = map of_char ''VAR_01'' \<and>
   uint (encodePayload 0 BIN_ID 55 3.5 123456789 ! 6) = 55 \<and>
   unat (encodePayload 0 BIN_ID 55 3.5 123456789 ! 7)
     + 256 * unat (encodePayload 0 BIN_ID 55 3.5 123456789 ! 8) = 3500"
proof -
  have h1: "6 \<le> length BIN_ID" by (simp add: BIN_ID_def)
  have "r32 3500 = 3500" using r32_of_int [of 3500] by simp
  then have v: "float_to_int (r32 (3.5 * 1000)) = 3500" by (simp add: float_to_int_def)
  note l = payload_layout [OF h1, of 0 55 "3.5" 123456789, unfolded Let_def v]
  from l have mv: "int (unat (voltageMillivolts 0 3.5)) = 3500" by simp
  from l have "unat (encodePayload 0 BIN_ID 55 3.5 123456789 ! 7)
     + 256 * unat (encodePayload 0 BIN_ID 55 3.5 123456789 ! 8) = unat (voltageMillivolts 0 3.5)"
    by blast
  with mv have m: "unat (encodePayload 0 BIN_ID 55 3.5 123456789 ! 7)
     + 256 * unat (encodePayload 0 BIN_ID 55 3.5 123456789 ! 8) = 3500" by linarith
  from l have id: "take 6 (encodePayload 0 BIN_ID 55 3.5 123456789) = map of_char ''VAR_01''"
    by (simp add: BIN_ID_def)
  from l have f: "uint (encodePayload 0 BIN_ID 55 3.5 123456789 ! 6) = 55" by simp
  from l have len: "length (encodePayload 0 BIN_ID 55 3.5 123456789) = 13" by blast
  from h1 v len id f m show ?thesis by simp
qed

lemma millivolts_3_3f: "float_to_int (r32 (13841203 / 4194304 * 1000)) = 3300"
  by code_simp

text \<open>
  Claim C4 as stated fails: for the single-precision voltage nearest to 3.3 V, which is
  13841203 / 4194304, the exact product with 1000 truncates to 3299, while the product
  the code computes rounds to 3300, the value stored and decoded; and at 70 V the
  millivolt value 70000 is more than 16 bits hold.
\<close>

theorem decode_encode_counterexample:
  "map_option millivolts
     (spec_decodePayload (encodePayload 0 BIN_ID 50 (13841203 / 4194304) 10000)) = Some 3300 \<and>
   float_to_int (13841203 / 4194304 * 1000) = 3299 \<and>
   float_to_int (r32 (70 * 1000)) = 70000 \<and> \<not> (70000 :: int) < 65536"
proof -
  from spec_decodePayload_encodePayload [of 0 50 "13841203 / 4194304" 10000]
  obtain t where t: "spec_decodePayload (encodePayload 0 BIN_ID 50 (13841203 / 4194304) 10000) = Some t"
    "millivolts t = unat (voltageMillivolts 0 (13841203 / 4194304))" by blast
  have rng: "0 \<le> float_to_int (r32 (13841203 / 4194304 * 1000))"
    "float_to_int (r32 (13841203 / 4194304 * 1000)) < 65536"
    unfolding millivolts_3_3f by simp_all
  have "int (unat (voltageMillivolts 0 (13841203 / 4194304))) = 3300"
    using voltageMillivolts_in_range [OF rng, of 0] unfolding millivolts_3_3f .
  with t(2) have "millivolts t = 3300" by linarith
  with t(1) have a: "map_option millivolts
     (spec_decodePayload (encodePayload 0 BIN_ID 50 (13841203 / 4194304) 10000)) = Some 3300" by simp
  have b: "float_to_int (13841203 / 4194304 * 1000) = 3299"
    by (simp add: float_to_int_def)
  have "r32 70000 = 70000" using r32_of_int [of 70000] by simp
  then have c: "float_to_int (r32 (70 * 1000)) = 70000" by (simp add: float_to_int_def)
  from a b c show ?thesis by simp
qed

text \<open>
  Claim C4, amended. For every fill level in [0, 100], every voltage whose millivolt
  value (the truncation of the single-precision product voltage * 1000) lies in
  [0, 65535] and every uptime value, decoding the encoded payload by the inverse byte
  layout recovers the exact fill level, that millivolt value, which is the truncation of
  the exact product voltage * 1000 or one more and within 1 mV of the exact product, and
  the exact uptime in seconds.
\<close>

theorem decode_encode:
  assumes "0 \<le> fillLevel" and "fillLevel \<le> 100"
    and "0 \<le> float_to_int (r32 (voltage * 1000))" and "float_to_int (r32 (voltage * 1000)) < 65536"
  shows "\<exists>t. spec_decodePayload (encodePayload indeterminate BIN_ID fillLevel voltage millis) = Some t \<and>
     int (fill t) = fillLevel \<and>
     int (millivolts t) = float_to_int (r32 (voltage * 1000)) \<and>
     (int (millivolts t) = float_to_int (voltage * 1000) \<or>
      int (millivolts t) = float_to_int (voltage * 1000) + 1) \<and>
     \<bar>voltage * 1000 - real (millivolts t)\<bar> < 1 \<and>
     uptime t = unat (millis div 1000)"
proof -
  from spec_decodePayload_encodePayload [of indeterminate fillLevel voltage millis] assms(1,2)
  obtain t where t: "spec_decodePayload (encodePayload indeterminate BIN_ID fillLevel voltage millis) = Some t"
    "int (fill t) = fillLevel" "millivolts t = unat (voltageMillivolts indeterminate voltage)"
    "uptime t = unat (millis div 1000)"
    by blast
  from t(3) voltageMillivolts_in_range [OF assms(3,4), of indeterminate]
  have m: "int (millivolts t) = float_to_int (r32 (voltage * 1000))" by simp
  note c = truncated_r32_close [OF assms(3,4)]
  from c(1) m have d: "int (millivolts t) = float_to_int (voltage * 1000) \<or>
      int (millivolts t) = float_to_int (voltage * 1000) + 1" by simp
  have "real (millivolts t) = real_of_int (float_to_int (r32 (voltage * 1000)))"
    using m by (metis of_int_of_nat_eq)
  with c(2) have e: "\<bar>voltage * 1000 - real (millivolts t)\<bar> < 1" by simp
  from t(1,2) m d e t(4) show ?thesis by blast
qed

theorem decode_encode_witness:
  "(0::int) \<le> 55 \<and> (55::int) \<le> 100 \<and>
   0 \<le> float_to_int (r32 (13841203 / 4194304 * 1000)) \<and>
   float_to_int (r32 (13841203 / 4194304 * 1000)) < 65536 \<and>
   (\<exists>t. spec_decodePayload (encodePayload 0 BIN_ID 55 (13841203 / 4194304) 123456789) = Some t \<and>
      fill t = 55 \<and> millivolts t = 3300 \<and> uptime t = 123456)"
proof -
  have h3: "0 \<le> float_to_int (r32 (13841203 / 4194304 * 1000))"
    and h4: "float_to_int (r32 (13841203 / 4194304 * 1000)) < 65536"
    unfolding millivolts_3_3f by simp_all
  have ts: "unat ((123456789 :: 32 word) div 1000) = 123456" by simp
  from decode_encode [of 55 "13841203 / 4194304" 0 123456789, OF _ _ h3 h4]
  obtain t where pt: "spec_decodePayload (encodePayload 0 BIN_ID 55 (13841203 / 4194304) 123456789) = Some t"
    "int (fill t) = 55" "int (millivolts t) = float_to_int (r32 (13841203 / 4194304 * 1000))"
    "uptime t = unat ((123456789 :: 32 word) div 1000)"
    by auto
  from pt(2) have f: "fill t = 55" by linarith
  from pt(3) have m: "millivolts t = 3300" unfolding millivolts_3_3f by linarith
  from pt(4) have u: "uptime t = 123456" unfolding ts .
  from h3 h4 pt(1) f m u show ?thesis by auto
qed

section \<open>The battery reading\<close>

lemma battery_2048_millivolts: "float_to_int (r32 (readBatteryVoltage 2048 * 1000)) = 3300"
  by code_simp

lemma battery_millivolts_range:
  assumes "0 \<le> rawValue" "rawValue \<le> 4095"
  shows "0 \<le> float_to_int (r32 (readBatteryVoltage rawValue * 1000))"
    and "float_to_int (r32 (readBatteryVoltage rawValue * 1000)) < 65536"
proof -
  have nn: "0 \<le> readBatteryVoltage rawValue * 1000"
    using assms(1) by (simp add: readBatteryVoltage_def)
  have "real_of_int rawValue \<le> 4095" using assms(2) by simp
  then have le: "readBatteryVoltage rawValue * 1000 \<le> 6600"
    by (simp add: readBatteryVoltage_def)
  have r6600: "r32 6600 = 6600" using r32_of_int [of 6600] by simp
  from r32_mono [OF nn] have "0 \<le> r32 (readBatteryVoltage rawValue * 1000)" by simp
  from float_to_int_mono [OF this] show "0 \<le> float_to_int (r32 (readBatteryVoltage rawValue * 1000))"
    using float_to_int_of_int [of 0] by simp
  from r32_mono [OF le] have "r32 (readBatteryVoltage rawValue * 1000) \<le> 6600" by (simp add: r6600)
  from float_to_int_mono [OF this] have "float_to_int (r32 (readBatteryVoltage rawValue * 1000)) \<le> 6600"
    using float_to_int_of_int [of 6600] by simp
  then show "float_to_int (r32 (readBatteryVoltage rawValue * 1000)) < 65536" by simp
qed

text \<open>
  Claim C6 as stated fails: for the ADC reading 2048 the encoder stores 3300, not 3297.
\<close>

theorem adc_2048_counterexample:
  "float_to_uint16 0 (r32 (readBatteryVoltage 2048 * 1000)) = 3300 \<and> (3300 :: 16 word) \<noteq> 3297"
  by (simp add: float_to_uint16_def Let_def battery_2048_millivolts)

text \<open>
  Claim C6, amended. For a raw ADC reading of 2048, readBatteryVoltage returns
  (2048 / 4095) * 3.3 * 2.0, about 3.3008 volts; the encoder stores 3300 in the 16-bit
  millivolt field, and decoding the payload yields exactly 3300 mV.
\<close>

theorem adc_2048_roundtrip:
  "readBatteryVoltage 2048 = (2048 / 4095) * 3.3 * 2.0 \<and>
   3.3008 < readBatteryVoltage 2048 \<and> readBatteryVoltage 2048 < 3.3009 \<and>
   float_to_uint16 indeterminate (r32 (readBatteryVoltage 2048 * 1000)) = 3300 \<and>
   (\<exists>t. spec_decodePayload
          (encodePayload indeterminate BIN_ID fillLevel (readBatteryVoltage 2048) millis) = Some t \<and>
        millivolts t = 3300)"
proof -
  have v: "readBatteryVoltage 2048 = (2048 / 4095) * 3.3 * 2.0"
    by (simp add: readBatteryVoltage_def)
  have lo: "3.3008 < readBatteryVoltage 2048" and hi: "readBatteryVoltage 2048 < 3.3009"
    by (simp_all add: readBatteryVoltage_def)
  have c: "float_to_uint16 indeterminate (r32 (readBatteryVoltage 2048 * 1000)) = 3300"
    by (simp add: float_to_uint16_def Let_def battery_2048_millivolts)
  from spec_decodePayload_encodePayload [of indeterminate fillLevel "readBatteryVoltage 2048" millis]
  obtain t where t: "spec_decodePayload
          (encodePayload indeterminate BIN_ID fillLevel (readBatteryVoltage 2048) millis) = Some t"
    "millivolts t = unat (voltageMillivolts indeterminate (readBatteryVoltage 2048))" by blast
  from t(2) c have "millivolts t = 3300" by (simp add: voltageMillivolts_def)
  with t(1) v lo hi c show ?thesis by blast
qed

section \<open>The broadcast cycle\<close>

text \<open>
  Claim C8. In every broadcast cycle advertising is started, held for the fixed 5000 ms,
  and stopped before the node enters deep sleep; the node never enters deep sleep while
  the radio is still advertising.
\<close>

theorem advertising_stopped_before_sleep:
  "\<exists>payload. events (loop indeterminate pulseIn analogRead millis s) = events s @
       [SetAdvertisementData payload BIN_ID, AdvertisingStart, Delay 5000, AdvertisingStop,
        Delay 100, TimerWakeup (SLEEP_INTERVAL * 1000), DeepSleepStart] \<and>
     \<not> advertising (loop indeterminate pulseIn analogRead millis s) \<and>
     sleepsRadioOff (advertising s)
       (drop (length (events s)) (events (loop indeterminate pulseIn analogRead millis s))) \<and>
     advertisedFor (advertising s)
       (drop (length (events s)) (events (loop indeterminate pulseIn analogRead millis s))) = 5000"
proof -
  define p where "p = encodePayload indeterminate BIN_ID
      (calculateFillLevel (measureDistance pulseIn)) (readBatteryVoltage analogRead) millis"
  define s' where "s' = loop indeterminate pulseIn analogRead millis s"
  have run: "s' = enterDeepSleep (delay 100 (advertisingStop (delay 5000 (advertisingStart
                  (setAdvertisementData p BIN_ID s)))))"
    by (simp add: s'_def loop_def Let_def broadcastData_def p_def)
  have ev: "events s' = events s @
       [SetAdvertisementData p BIN_ID, AdvertisingStart, Delay 5000, AdvertisingStop,
        Delay 100, TimerWakeup (SLEEP_INTERVAL * 1000), DeepSleepStart]"
    by (simp add: run enterDeepSleep_def delay_def advertisingStop_def advertisingStart_def
        setAdvertisementData_def)
  have off: "\<not> advertising s'"
    by (simp add: run enterDeepSleep_def delay_def advertisingStop_def advertisingStart_def
        setAdvertisementData_def)
  have quiet: "sleepsRadioOff (advertising s) (drop (length (events s)) (events s'))"
    unfolding ev by simp
  have dur: "advertisedFor (advertising s) (drop (length (events s)) (events s')) = 5000"
    unfolding ev by simp
  from ev off quiet dur show ?thesis unfolding s'_def by blast
qed

theorem advertising_stopped_before_sleep_witness:
  "\<not> advertising (loop 0 (\<lambda>i. 0) 2048 0 \<lparr>advertising = False, advertisementData = [], events = []\<rparr>) \<and>
   sleepsRadioOff False
     (events (loop 0 (\<lambda>i. 0) 2048 0 \<lparr>advertising = False, advertisementData = [], events = []\<rparr>)) \<and>
   advertisedFor False
     (events (loop 0 (\<lambda>i. 0) 2048 0 \<lparr>advertising = False, advertisementData = [], events = []\<rparr>)) = 5000"
  using advertising_stopped_before_sleep [of 0 "\<lambda>i. 0" 2048 0
      "\<lparr>advertising = False, advertisementData = [], events = []\<rparr>"]
  by auto

end
